theory Spec2Isabelle
  imports Complex_Main "HOL-Library.AList" "HOL-Library.Char_ord" "HOL-Library.List_Lexorder"
begin

section \<open>Python values used by agreement.py\<close>

text \<open>
  Exceptions are values.  A \<open>KeyError\<close> carries the missing key, the
  \<open>ValueError\<close> of the two validation checks carries the annotator id and the
  sentence id that its message \<open>no annotation from {ann} on {sen_id}\<close> prints.
\<close>

datatype key = IntKey nat | StrKey string

datatype error =
    KeyError key
  | ValueError nat string
  | AssertionError
  | ZeroDivisionError
  | IndexError

text \<open>
  A \<open>dict\<close> is an association list in insertion order: \<open>map_of\<close> reads a key,
  \<open>AList.update\<close> overwrites in place or appends, as Python does.
  A \<open>Counter\<close> is a dict whose missing keys read as 0.
\<close>

definition dict_get :: "('k \<times> 'v) list \<Rightarrow> 'k \<Rightarrow> key \<Rightarrow> error + 'v" where
  "dict_get d k kr = (case map_of d k of None \<Rightarrow> Inl (KeyError kr) | Some v \<Rightarrow> Inr v)"

definition counter_get :: "('k \<times> nat) list \<Rightarrow> 'k \<Rightarrow> nat" where
  "counter_get c k = (case map_of c k of None \<Rightarrow> 0 | Some n \<Rightarrow> n)"

definition counter_inc :: "'k \<Rightarrow> ('k \<times> nat) list \<Rightarrow> ('k \<times> nat) list" where
  "counter_inc k c = AList.update k (counter_get c k + 1) c"

section \<open>Vocabulary\<close>

text \<open>
  Modelled from the spec: the class \<open>Vocabulary\<close> is imported from
  \<open>tuw_nlp.common.vocabulary\<close> and is not part of the source.  Following the spec
  (sections 3 and 4.1) it holds a mapping word to id and its inverse, ids are handed
  out sequentially on first sight, and a lookup of an unseen word without
  \<open>allow_new\<close> fails.
\<close>

record vocabulary =
  word_to_id :: "(string \<times> nat) list"
  id_to_word :: "(nat \<times> string) list"

definition Vocabulary :: vocabulary where
  "Vocabulary = \<lparr>word_to_id = [], id_to_word = []\<rparr>"

definition len_vocab :: "vocabulary \<Rightarrow> nat" where
  "len_vocab v = length (word_to_id v)"

definition get_id :: "string \<Rightarrow> bool \<Rightarrow> vocabulary \<Rightarrow> error + (nat \<times> vocabulary)" where
  "get_id word allow_new v =
     (case map_of (word_to_id v) word of
        Some i \<Rightarrow> Inr (i, v)
      | None \<Rightarrow>
          if allow_new
          then (let i = len_vocab v
                in Inr (i, \<lparr>word_to_id = word_to_id v @ [(word, i)],
                            id_to_word = id_to_word v @ [(i, word)]\<rparr>))
          else Inl (KeyError (StrKey word)))"

definition get_word :: "nat \<Rightarrow> vocabulary \<Rightarrow> error + string" where
  "get_word i v = dict_get (id_to_word v) i (IntKey i)"

text \<open>The vocabularies that \<open>get_id\<close> builds from the empty one: ids are
  \<open>0, 1, ...\<close> in insertion order, words are distinct, and the two maps mirror
  each other.\<close>

definition wf_vocab :: "vocabulary \<Rightarrow> bool" where
  "wf_vocab v =
     (distinct (map fst (word_to_id v)) \<and>
      map snd (word_to_id v) = [0..<length (word_to_id v)] \<and>
      id_to_word v = map (\<lambda>(w, i). (i, w)) (word_to_id v))"

section \<open>Sentence records\<close>

text \<open>
  The record that \<open>load_data\<close> creates per sentence id.  \<open>annot\<close> maps an
  annotator id to the list of attribute ids, \<open>attr_stats\<close> is a \<open>Counter\<close>,
  and \<open>full_agreement\<close> is only set by \<open>print_data\<close>.
\<close>

record sen =
  sen_id :: string
  sen_text :: "string option"
  annot :: "(nat \<times> nat list) list"
  attr_stats :: "(nat \<times> nat) list"
  full_agreement :: "bool option"

type_synonym data = "(string \<times> sen) list"

section \<open>add\_votes\<close>

text \<open>Lines 120-125: the occurrences of each attribute in the lists of the
  annotators of \<open>real_annotators\<close> whose name is not \<open>gold\<close>.\<close>

fun count_attrs ::
  "vocabulary \<Rightarrow> (nat \<times> nat list) list \<Rightarrow> nat list \<Rightarrow> (nat \<times> nat) list
     \<Rightarrow> error + (nat \<times> nat) list" where
  "count_attrs annotator_vocab an [] attr_counter = Inr attr_counter"
| "count_attrs annotator_vocab an (ann # anns) attr_counter =
     (case get_word ann annotator_vocab of
        Inl e \<Rightarrow> Inl e
      | Inr w \<Rightarrow>
          if w = ''gold'' then count_attrs annotator_vocab an anns attr_counter
          else (case dict_get an ann (IntKey ann) of
                  Inl e \<Rightarrow> Inl e
                | Inr attrs \<Rightarrow>
                    count_attrs annotator_vocab an anns (fold counter_inc attrs attr_counter)))"

text \<open>Lines 127-131: one set per quorum \<open>n\<close>, filled from the counter.\<close>

definition add_to_vote_sets ::
  "nat \<times> nat \<Rightarrow> (nat \<times> nat set) list \<Rightarrow> (nat \<times> nat set) list" where
  "add_to_vote_sets ac vote_sets =
     map (\<lambda>(n, s). (n, if n \<le> snd ac then insert (fst ac) s else s)) vote_sets"

definition make_vote_sets ::
  "(nat \<times> nat) list \<Rightarrow> (nat \<times> nat) list \<Rightarrow> (nat \<times> nat set) list" where
  "make_vote_sets vote_anns attr_counter =
     fold add_to_vote_sets attr_counter (map (\<lambda>(n, a). (n, {})) vote_anns)"

text \<open>Lines 133-134: the sorted sets are stored under the ids of \<open>vote_anns\<close>.\<close>

fun store_votes ::
  "(nat \<times> nat) list \<Rightarrow> (nat \<times> nat set) list \<Rightarrow> (nat \<times> nat list) list
     \<Rightarrow> error + (nat \<times> nat list) list" where
  "store_votes vote_anns [] an = Inr an"
| "store_votes vote_anns ((n, attrs) # rest) an =
     (case dict_get vote_anns n (IntKey n) of
        Inl e \<Rightarrow> Inl e
      | Inr a \<Rightarrow> store_votes vote_anns rest (AList.update a (sorted_list_of_set attrs) an))"

text \<open>The body of the loop over the sentences (lines 120-134).\<close>

definition vote_sen ::
  "vocabulary \<Rightarrow> nat list \<Rightarrow> (nat \<times> nat) list \<Rightarrow> sen \<Rightarrow> error + sen" where
  "vote_sen annotator_vocab real_annotators vote_anns s =
     (case count_attrs annotator_vocab (annot s) real_annotators [] of
        Inl e \<Rightarrow> Inl e
      | Inr attr_counter \<Rightarrow>
          (case store_votes vote_anns (make_vote_sets vote_anns attr_counter) (annot s) of
             Inl e \<Rightarrow> Inl e
           | Inr an \<Rightarrow> Inr (s\<lparr>annot := an\<rparr>)))"

fun vote_sens ::
  "vocabulary \<Rightarrow> nat list \<Rightarrow> (nat \<times> nat) list \<Rightarrow> data \<Rightarrow> error + data" where
  "vote_sens annotator_vocab real_annotators vote_anns [] = Inr []"
| "vote_sens annotator_vocab real_annotators vote_anns ((sid, s) # rest) =
     (case vote_sen annotator_vocab real_annotators vote_anns s of
        Inl e \<Rightarrow> Inl e
      | Inr s' \<Rightarrow>
          (case vote_sens annotator_vocab real_annotators vote_anns rest of
             Inl e \<Rightarrow> Inl e
           | Inr rest' \<Rightarrow> Inr ((sid, s') # rest')))"

text \<open>Lines 114-117: the annotators known before the call, then the ids of
  \<open>min1\<close>, \<open>min2\<close>, \<open>min3\<close>, registered on first use.\<close>

fun register_votes ::
  "nat list \<Rightarrow> vocabulary \<Rightarrow> error + ((nat \<times> nat) list \<times> vocabulary)" where
  "register_votes [] v = Inr ([], v)"
| "register_votes (n # ns) v =
     (case get_id (''min'' @ [char_of (48 + n)]) True v of
        Inl e \<Rightarrow> Inl e
      | Inr (a, v') \<Rightarrow>
          (case register_votes ns v' of
             Inl e \<Rightarrow> Inl e
           | Inr (vote_anns, v'') \<Rightarrow> Inr ((n, a) # vote_anns, v'')))"

definition add_votes ::
  "data \<Rightarrow> vocabulary \<Rightarrow> vocabulary \<Rightarrow> error + (data \<times> vocabulary)" where
  "add_votes data attr_vocab annotator_vocab =
     (let real_annotators = map fst (id_to_word annotator_vocab)
      in case register_votes [1, 2, 3] annotator_vocab of
           Inl e \<Rightarrow> Inl e
         | Inr (vote_anns, annotator_vocab') \<Rightarrow>
             (case vote_sens annotator_vocab' real_annotators vote_anns data of
                Inl e \<Rightarrow> Inl e
              | Inr data' \<Rightarrow> Inr (data', annotator_vocab')))"

section \<open>Loading\<close>

definition REPLACEMENT_PAIRS :: "(string \<times> string) list" where
  "REPLACEMENT_PAIRS = [(''BBDachneigungMax'', ''DachneigungMax'')]"

definition ATTR_IGNORE :: "string set" where
  "ATTR_IGNORE =
     {''AusnahmePruefungErforderlich'', ''WeitereBestimmungPruefungErforderlich'',
      ''ZuVorherigemSatzGehoerig'', ''Segmentierungsfehler'', ''NoAttribute'', ''N/A'',
      ''StrittigeBedeutung''}"

fun replace_first :: "(string \<times> string) list \<Rightarrow> string \<Rightarrow> string" where
  "replace_first [] attr = attr"
| "replace_first ((a, b) # pairs) attr = (if attr = a then b else replace_first pairs attr)"

definition preprocess_attr :: "string \<Rightarrow> string" where
  "preprocess_attr attr = replace_first REPLACEMENT_PAIRS attr"

text \<open>
  A spreadsheet row is a list of cells, \<open>None\<close> for an empty cell.  The dict that
  \<open>gen_sens_from_file\<close> yields for a data row is a record; \<open>gen_row\<close> is the
  body of its loop for row number \<open>i\<close>: \<open>Inr None\<close> when the row is skipped
  (\<open>continue\<close>), \<open>Inr (Some s)\<close> when it yields \<open>s\<close>.
\<close>

type_synonym row = "string option list"

record row_sen =
  rs_id :: string
  rs_text :: "string option"
  attributes :: "string list"

definition row_attributes :: "row \<Rightarrow> string list" where
  "row_attributes rest =
     [field. (j, Some field) \<leftarrow> enumerate 0 rest,
             field \<noteq> [] \<and> j mod 2 = 1 \<and> field \<notin> ATTR_IGNORE]"

definition gen_row :: "nat \<Rightarrow> row \<Rightarrow> error + row_sen option" where
  "gen_row i r =
     (case r of
        [] \<Rightarrow> Inl IndexError
      | c0 # cs \<Rightarrow>
          if i = 0 then (if c0 = Some ''Sentence_ID'' then Inr None else Inl AssertionError)
          else (case c0 of
                  None \<Rightarrow> if i = 1 then Inr None else Inl AssertionError
                | Some sid \<Rightarrow>
                    (case cs of
                       [] \<Rightarrow> Inl IndexError
                     | c1 # _ \<Rightarrow>
                         Inr (Some \<lparr>rs_id = sid, rs_text = c1,
                                    attributes = sort (row_attributes (take 10 (drop 2 r)))\<rparr>))))"

text \<open>
  The state that \<open>load_data\<close> builds.  A run of the loader either finishes or
  raises; \<open>Raised\<close> keeps the state reached when the exception was raised, since
  the dicts are updated in place.
\<close>

record load_state =
  ls_data :: data
  ls_attr_vocab :: vocabulary
  ls_annotator_vocab :: vocabulary

datatype outcome = Done load_state | Raised error load_state

text \<open>Lines 225-226: the attributes of the row are interned one by one, in the
  order in which the \<open>set\<close> of the raw labels is iterated.\<close>

fun intern_attrs :: "string list \<Rightarrow> vocabulary \<Rightarrow> error + (nat list \<times> vocabulary)" where
  "intern_attrs [] v = Inr ([], v)"
| "intern_attrs (attr # attrs) v =
     (case get_id (preprocess_attr attr) True v of
        Inl e \<Rightarrow> Inl e
      | Inr (a, v') \<Rightarrow>
          (case intern_attrs attrs v' of
             Inl e \<Rightarrow> Inl e
           | Inr (as, v'') \<Rightarrow> Inr (a # as, v'')))"

text \<open>Lines 232-234: the attributes of gold get an entry without a vote.\<close>

definition counter_touch :: "nat \<Rightarrow> (nat \<times> nat) list \<Rightarrow> (nat \<times> nat) list" where
  "counter_touch attr c = (if attr \<in> fst ` set c then c else AList.update attr 0 c)"

text \<open>Lines 215-220: the text check for a known sentence id, a fresh record for a
  new one.\<close>

definition ensure_sen :: "row_sen \<Rightarrow> load_state \<Rightarrow> outcome" where
  "ensure_sen rs st =
     (case map_of (ls_data st) (rs_id rs) of
        Some s \<Rightarrow> if sen_text s = rs_text rs then Done st else Raised AssertionError st
      | None \<Rightarrow>
          Done (st\<lparr>ls_data := AList.update (rs_id rs)
                   \<lparr>sen_id = rs_id rs, sen_text = rs_text rs, annot = [], attr_stats = [],
                    full_agreement = None\<rparr> (ls_data st)\<rparr>))"

text \<open>
  Lines 222-234: the duplicate check, the annotation and the votes.
  \<open>set_iter\<close> is the order in which Python iterates \<open>set(sen['attributes'])\<close>:
  it depends on the hashes of the strings and is a parameter of the model.
\<close>

definition annotate_sen ::
  "(string list \<Rightarrow> string list) \<Rightarrow> nat \<Rightarrow> row_sen \<Rightarrow> load_state \<Rightarrow> outcome" where
  "annotate_sen set_iter annotator rs st =
     (case map_of (ls_data st) (rs_id rs) of
        None \<Rightarrow> Raised (KeyError (StrKey (rs_id rs))) st
      | Some s \<Rightarrow>
          if annotator \<in> fst ` set (annot s) then Raised AssertionError st
          else
            (case intern_attrs (set_iter (attributes rs)) (ls_attr_vocab st) of
               Inl e \<Rightarrow> Raised e st
             | Inr (ids, av) \<Rightarrow>
                 (let s1 = s\<lparr>annot := AList.update annotator (sort ids) (annot s)\<rparr>;
                      st1 = st\<lparr>ls_data := AList.update (rs_id rs) s1 (ls_data st), ls_attr_vocab := av\<rparr>
                  in case get_word annotator (ls_annotator_vocab st) of
                       Inl e \<Rightarrow> Raised e st1
                     | Inr w \<Rightarrow>
                         (let stats = (if w \<noteq> ''gold''
                                       then fold counter_inc (sort ids) (attr_stats s1)
                                       else fold counter_touch (sort ids) (attr_stats s1))
                          in Done (st1\<lparr>ls_data :=
                               AList.update (rs_id rs) (s1\<lparr>attr_stats := stats\<rparr>)
                                 (ls_data st1)\<rparr>)))))"

definition merge_sen ::
  "(string list \<Rightarrow> string list) \<Rightarrow> nat \<Rightarrow> row_sen \<Rightarrow> load_state \<Rightarrow> outcome" where
  "merge_sen set_iter annotator rs st =
     (case ensure_sen rs st of
        Raised e st' \<Rightarrow> Raised e st'
      | Done st0 \<Rightarrow> annotate_sen set_iter annotator rs st0)"

text \<open>The loop of line 214 over the rows of one file, row numbers from \<open>i\<close>.\<close>

fun load_rows ::
  "(string list \<Rightarrow> string list) \<Rightarrow> nat \<Rightarrow> nat \<Rightarrow> row list \<Rightarrow> load_state \<Rightarrow> outcome" where
  "load_rows set_iter annotator i [] st = Done st"
| "load_rows set_iter annotator i (r # rs) st =
     (case gen_row i r of
        Inl e \<Rightarrow> Raised e st
      | Inr None \<Rightarrow> load_rows set_iter annotator (Suc i) rs st
      | Inr (Some s) \<Rightarrow>
          (case merge_sen set_iter annotator s st of
             Raised e st' \<Rightarrow> Raised e st'
           | Done st' \<Rightarrow> load_rows set_iter annotator (Suc i) rs st'))"

text \<open>
  One file: \<open>file_annotator\<close> is the annotator part of the file name, already
  lower-cased (lines 206-212 split the name; the split and the spreadsheet reader
  are outside the model), \<open>file_rows\<close> is what \<open>xlsx_to_data\<close> returns.
\<close>

record input_file =
  file_annotator :: string
  file_rows :: "row list"

definition load_file :: "(string list \<Rightarrow> string list) \<Rightarrow> input_file \<Rightarrow> load_state \<Rightarrow> outcome" where
  "load_file set_iter f st =
     (case get_id (file_annotator f) True (ls_annotator_vocab st) of
        Inl e \<Rightarrow> Raised e st
      | Inr (annotator, anv) \<Rightarrow>
          load_rows set_iter annotator 0 (file_rows f) (st\<lparr>ls_annotator_vocab := anv\<rparr>))"

fun load_files :: "(string list \<Rightarrow> string list) \<Rightarrow> input_file list \<Rightarrow> load_state \<Rightarrow> outcome" where
  "load_files set_iter [] st = Done st"
| "load_files set_iter (f # fs) st =
     (case load_file set_iter f st of
        Raised e st' \<Rightarrow> Raised e st'
      | Done st' \<Rightarrow> load_files set_iter fs st')"

definition load_data :: "(string list \<Rightarrow> string list) \<Rightarrow> input_file list \<Rightarrow> outcome" where
  "load_data set_iter filenames =
     load_files set_iter filenames
       \<lparr>ls_data = [], ls_attr_vocab = Vocabulary, ls_annotator_vocab = Vocabulary\<rparr>"

section \<open>The report file and the empty-sentence filter\<close>

fun all_equal :: "'a list \<Rightarrow> bool" where
  "all_equal [] = True"
| "all_equal (first # rest) = list_all (\<lambda>r. first = r) rest"

text \<open>
  \<open>print_data\<close> stores \<open>full_agreement\<close> in every record and writes one line per
  record whose last column is that value; the formatting of the line
  (\<open>get_tsv_line\<close>) is left out, the records as written are the result.
\<close>

definition print_data :: "data \<Rightarrow> data" where
  "print_data d =
     map (\<lambda>(sid, s). (sid, s\<lparr>full_agreement := Some (all_equal (map snd (annot s)))\<rparr>)) d"

definition remove_empty :: "data \<Rightarrow> data" where
  "remove_empty d = filter (\<lambda>(sid, s). list_ex (\<lambda>attrs. attrs \<noteq> []) (map snd (annot s))) d"

section \<open>eval\_against\_gold\<close>

text \<open>
  \<open>attr_stats\<close> of \<open>eval_against_gold\<close> is a \<open>defaultdict\<close>: attribute id to a
  dict with one \<open>Counter\<close> per annotator other than gold.  The outer dict is an
  association list; the inner dict and its counters, which are only read and
  written at annotators other than gold and at the three figures, are a function
  with 0 for what was never counted.
\<close>

datatype figure = TP | FN | FP

type_synonym counts = "nat \<Rightarrow> figure \<Rightarrow> nat"

type_synonym gold_stats = "(nat \<times> counts) list"

definition stats_row :: "gold_stats \<Rightarrow> nat \<Rightarrow> counts" where
  "stats_row st attr = (case map_of st attr of None \<Rightarrow> (\<lambda>ann figure. 0) | Some r \<Rightarrow> r)"

definition bump :: "nat \<Rightarrow> nat \<Rightarrow> figure \<Rightarrow> gold_stats \<Rightarrow> gold_stats" where
  "bump attr ann figure st =
     (let r = stats_row st attr
      in AList.update attr (r(ann := (r ann)(figure := r ann figure + 1))) st)"

text \<open>Lines 63-69: the annotators for one attribute of gold.\<close>

fun tp_fn_anns ::
  "nat \<Rightarrow> (nat \<times> nat list) list \<Rightarrow> nat \<Rightarrow> nat list \<Rightarrow> gold_stats \<Rightarrow> error + gold_stats" where
  "tp_fn_anns gold_ann an attr [] st = Inr st"
| "tp_fn_anns gold_ann an attr (ann # anns) st =
     (if ann = gold_ann then tp_fn_anns gold_ann an attr anns st
      else (case dict_get an ann (IntKey ann) of
              Inl e \<Rightarrow> Inl e
            | Inr attrs \<Rightarrow>
                tp_fn_anns gold_ann an attr anns
                  (bump attr ann (if attr \<in> set attrs then TP else FN) st)))"

text \<open>Lines 62-69: the attributes of gold.\<close>

fun tp_fn_attrs ::
  "nat \<Rightarrow> (nat \<times> nat list) list \<Rightarrow> nat list \<Rightarrow> nat list \<Rightarrow> gold_stats \<Rightarrow> error + gold_stats" where
  "tp_fn_attrs gold_ann an ids [] st = Inr st"
| "tp_fn_attrs gold_ann an ids (attr # attrs) st =
     (case tp_fn_anns gold_ann an attr ids st of
        Inl e \<Rightarrow> Inl e
      | Inr st' \<Rightarrow> tp_fn_attrs gold_ann an ids attrs st')"

text \<open>Lines 77-79: the attributes of one annotator that gold did not select.\<close>

definition fp_attrs :: "nat \<Rightarrow> nat list \<Rightarrow> nat list \<Rightarrow> gold_stats \<Rightarrow> gold_stats" where
  "fp_attrs ann gold_attrs attrs st =
     fold (\<lambda>attr st. if attr \<notin> set gold_attrs then bump attr ann FP st else st) attrs st"

text \<open>Lines 72-79: the annotators, with the check that each has annotated the
  sentence.\<close>

fun fp_anns ::
  "string \<Rightarrow> nat \<Rightarrow> (nat \<times> nat list) list \<Rightarrow> nat list \<Rightarrow> nat list \<Rightarrow> gold_stats
     \<Rightarrow> error + gold_stats" where
  "fp_anns sid gold_ann an gold_attrs [] st = Inr st"
| "fp_anns sid gold_ann an gold_attrs (ann # anns) st =
     (if ann = gold_ann then fp_anns sid gold_ann an gold_attrs anns st
      else (case map_of an ann of
              None \<Rightarrow> Inl (ValueError ann sid)
            | Some attrs \<Rightarrow>
                fp_anns sid gold_ann an gold_attrs anns (fp_attrs ann gold_attrs attrs st)))"

text \<open>Lines 61-79, the body of the loop over the sentences.\<close>

definition eval_sen ::
  "nat \<Rightarrow> nat list \<Rightarrow> string \<Rightarrow> sen \<Rightarrow> gold_stats \<Rightarrow> error + gold_stats" where
  "eval_sen gold_ann ids sid s st =
     (case dict_get (annot s) gold_ann (IntKey gold_ann) of
        Inl e \<Rightarrow> Inl e
      | Inr gold_attrs \<Rightarrow>
          (case tp_fn_attrs gold_ann (annot s) ids gold_attrs st of
             Inl e \<Rightarrow> Inl e
           | Inr st' \<Rightarrow> fp_anns sid gold_ann (annot s) gold_attrs ids st'))"

fun eval_sens :: "nat \<Rightarrow> nat list \<Rightarrow> data \<Rightarrow> gold_stats \<Rightarrow> error + gold_stats" where
  "eval_sens gold_ann ids [] st = Inr st"
| "eval_sens gold_ann ids ((sid, s) # rest) st =
     (case eval_sen gold_ann ids sid s st of
        Inl e \<Rightarrow> Inl e
      | Inr st' \<Rightarrow> eval_sens gold_ann ids rest st')"

text \<open>Lines 81-85: the row of the pseudo-attribute \<open>total\<close>.\<close>

definition total_row :: "nat \<Rightarrow> nat list \<Rightarrow> gold_stats \<Rightarrow> counts" where
  "total_row gold_ann ids st =
     (\<lambda>ann figure. if ann \<in> set ids \<and> ann \<noteq> gold_ann
                    then sum_list (map (\<lambda>(attr, r). r ann figure) st) else 0)"

text \<open>
  \<open>eval_against_gold\<close> up to line 85: the table of counts with its \<open>total\<close> row,
  and the attribute vocabulary, which gains the word \<open>total\<close>.  The ranking and
  the printing of the ten largest rows (lines 87-108) are left out.
\<close>

definition eval_against_gold ::
  "data \<Rightarrow> vocabulary \<Rightarrow> vocabulary \<Rightarrow> error + (gold_stats \<times> vocabulary)" where
  "eval_against_gold d attr_vocab annotator_vocab =
     (case get_id ''gold'' False annotator_vocab of
        Inl e \<Rightarrow> Inl e
      | Inr (gold_ann, anv) \<Rightarrow>
          (let ids = map fst (id_to_word annotator_vocab)
           in case eval_sens gold_ann ids d [] of
                Inl e \<Rightarrow> Inl e
              | Inr st \<Rightarrow>
                  (case get_id ''total'' True attr_vocab of
                     Inl e \<Rightarrow> Inl e
                   | Inr (total_id, av) \<Rightarrow>
                       Inr (AList.update total_id (total_row gold_ann ids st) st, av))))"

section \<open>measure\_agreement\<close>

text \<open>
  A Python float is a real or NaN; rounding is not modelled.  The statistic
  \<open>cohen_kappa_score\<close> of scikit-learn is a parameter \<open>cohen\<close> of the model.
\<close>

datatype pyfloat = Float real | NaN

fun fadd :: "pyfloat \<Rightarrow> pyfloat \<Rightarrow> pyfloat" where
  "fadd (Float a) (Float b) = Float (a + b)"
| "fadd _ _ = NaN"

definition py_sum :: "pyfloat list \<Rightarrow> pyfloat" where
  "py_sum ks = fold (\<lambda>k acc. fadd acc k) ks (Float 0)"

text \<open>\<open>sum(ks) / len(ks)\<close>: the division raises on the empty list.\<close>

definition average :: "pyfloat list \<Rightarrow> error + pyfloat" where
  "average ks =
     (if length ks = 0 then Inl ZeroDivisionError
      else Inr (case py_sum ks of Float t \<Rightarrow> Float (t / real (length ks)) | NaN \<Rightarrow> NaN))"

text \<open>
  The tensor \<open>ratings\<close> is a list (attributes) of lists (annotators) of lists
  (sentences) of 0 and 1; an index out of range raises, as numpy does.
\<close>

type_synonym ratings = "nat list list list"

definition zeros :: "nat \<Rightarrow> nat \<Rightarrow> nat \<Rightarrow> ratings" where
  "zeros a b c = replicate a (replicate b (replicate c 0))"

definition set_rating :: "nat \<Rightarrow> nat \<Rightarrow> nat \<Rightarrow> ratings \<Rightarrow> error + ratings" where
  "set_rating attr ann i rt =
     (if attr < length rt \<and> ann < length (rt ! attr) \<and> i < length (rt ! attr ! ann)
      then Inr (rt[attr := (rt ! attr)[ann := (rt ! attr ! ann)[i := 1]]])
      else Inl IndexError)"

definition get_vec :: "ratings \<Rightarrow> nat \<Rightarrow> nat \<Rightarrow> error + nat list" where
  "get_vec rt attr ann =
     (if attr < length rt \<and> ann < length (rt ! attr) then Inr (rt ! attr ! ann)
      else Inl IndexError)"

definition any_nonzero :: "nat list \<Rightarrow> bool" where
  "any_nonzero vec = list_ex (\<lambda>x. x \<noteq> 0) vec"

text \<open>Lines 150-151: the attributes of one annotator on sentence \<open>i\<close>.\<close>

fun rate_attrs :: "nat \<Rightarrow> nat \<Rightarrow> nat list \<Rightarrow> ratings \<Rightarrow> error + ratings" where
  "rate_attrs ann i [] rt = Inr rt"
| "rate_attrs ann i (attr # attrs) rt =
     (case set_rating attr ann i rt of
        Inl e \<Rightarrow> Inl e
      | Inr rt' \<Rightarrow> rate_attrs ann i attrs rt')"

text \<open>Lines 147-151: the annotators, with the check that each has annotated the
  sentence.\<close>

fun rate_anns ::
  "string \<Rightarrow> (nat \<times> nat list) list \<Rightarrow> nat \<Rightarrow> nat list \<Rightarrow> ratings \<Rightarrow> error + ratings" where
  "rate_anns sid an i [] rt = Inr rt"
| "rate_anns sid an i (ann # anns) rt =
     (case map_of an ann of
        None \<Rightarrow> Inl (ValueError ann sid)
      | Some attrs \<Rightarrow>
          (case rate_attrs ann i attrs rt of
             Inl e \<Rightarrow> Inl e
           | Inr rt' \<Rightarrow> rate_anns sid an i anns rt'))"

text \<open>Lines 153-154: \<open>attr_counts[attr][count] += 1\<close> for the items of the
  sentence's \<open>attr_stats\<close>.\<close>

type_synonym attr_counts = "(nat \<times> (nat \<times> nat) list) list"

fun count_stats :: "(nat \<times> nat) list \<Rightarrow> attr_counts \<Rightarrow> error + attr_counts" where
  "count_stats [] ac = Inr ac"
| "count_stats ((attr, n) # rest) ac =
     (case dict_get ac attr (IntKey attr) of
        Inl e \<Rightarrow> Inl e
      | Inr c \<Rightarrow> count_stats rest (AList.update attr (counter_inc n c) ac))"

text \<open>Lines 146-154: the loop over the sentences, numbered from \<open>i\<close>.\<close>

fun rate_sens ::
  "nat list \<Rightarrow> nat \<Rightarrow> data \<Rightarrow> ratings \<times> attr_counts \<Rightarrow> error + (ratings \<times> attr_counts)" where
  "rate_sens ids i [] acc = Inr acc"
| "rate_sens ids i ((sid, s) # rest) (rt, ac) =
     (case rate_anns sid (annot s) i ids rt of
        Inl e \<Rightarrow> Inl e
      | Inr rt' \<Rightarrow>
          (case count_stats (attr_stats s) ac of
             Inl e \<Rightarrow> Inl e
           | Inr ac' \<Rightarrow> rate_sens ids (Suc i) rest (rt', ac')))"

text \<open>Lines 167-171: the kappa of one pair of annotators on one attribute.\<close>

definition pair_kappa ::
  "(nat list \<Rightarrow> nat list \<Rightarrow> pyfloat) \<Rightarrow> ratings \<Rightarrow> nat \<Rightarrow> nat \<Rightarrow> nat \<Rightarrow> error + pyfloat" where
  "pair_kappa cohen rt attr ann1 ann2 =
     (case get_vec rt attr ann1 of
        Inl e \<Rightarrow> Inl e
      | Inr vec1 \<Rightarrow>
          (case get_vec rt attr ann2 of
             Inl e \<Rightarrow> Inl e
           | Inr vec2 \<Rightarrow>
               if \<not> any_nonzero vec1 \<and> \<not> any_nonzero vec2 then Inr (Float 1)
               else Inr (cohen vec1 vec2)))"

text \<open>Lines 163-176: the two nested loops over the annotators; the state is the
  pair \<open>(attr_kappas, gold_kappas)\<close>.\<close>

fun kappas_inner ::
  "(nat list \<Rightarrow> nat list \<Rightarrow> pyfloat) \<Rightarrow> ratings \<Rightarrow> nat \<Rightarrow> nat \<times> string \<Rightarrow> (nat \<times> string) list
     \<Rightarrow> pyfloat list \<times> pyfloat list \<Rightarrow> error + (pyfloat list \<times> pyfloat list)" where
  "kappas_inner cohen rt attr a1 [] acc = Inr acc"
| "kappas_inner cohen rt attr a1 (a2 # rest) (attr_kappas, gold_kappas) =
     (if fst a1 \<ge> fst a2 then kappas_inner cohen rt attr a1 rest (attr_kappas, gold_kappas)
      else (case pair_kappa cohen rt attr (fst a1) (fst a2) of
              Inl e \<Rightarrow> Inl e
            | Inr kappa \<Rightarrow>
                if snd a1 = ''gold'' \<or> snd a2 = ''gold''
                then kappas_inner cohen rt attr a1 rest (attr_kappas, gold_kappas @ [kappa])
                else kappas_inner cohen rt attr a1 rest (attr_kappas @ [kappa], gold_kappas)))"

fun kappas_outer ::
  "(nat list \<Rightarrow> nat list \<Rightarrow> pyfloat) \<Rightarrow> ratings \<Rightarrow> nat \<Rightarrow> (nat \<times> string) list
     \<Rightarrow> (nat \<times> string) list \<Rightarrow> pyfloat list \<times> pyfloat list
     \<Rightarrow> error + (pyfloat list \<times> pyfloat list)" where
  "kappas_outer cohen rt attr [] anns acc = Inr acc"
| "kappas_outer cohen rt attr (a1 # rest) anns acc =
     (case kappas_inner cohen rt attr a1 anns acc of
        Inl e \<Rightarrow> Inl e
      | Inr acc' \<Rightarrow> kappas_outer cohen rt attr rest anns acc')"

text \<open>The tuple appended to \<open>stats\<close> (lines 188-190); \<open>attr_counts_str\<close> is kept
  as the sorted items that the string prints.\<close>

record stat =
  attr_freq :: nat
  attr_name :: string
  avg_gold :: pyfloat
  gold_kappas :: "pyfloat list"
  avg :: pyfloat
  attr_kappas :: "pyfloat list"
  attr_counts_str :: "(nat \<times> nat) list"

text \<open>Lines 161-190, the body of the loop over the attributes.\<close>

definition attr_stat ::
  "(nat list \<Rightarrow> nat list \<Rightarrow> pyfloat) \<Rightarrow> ratings \<Rightarrow> attr_counts \<Rightarrow> (nat \<times> string) list
     \<Rightarrow> nat \<times> string \<Rightarrow> error + stat" where
  "attr_stat cohen rt ac anns a =
     (case kappas_outer cohen rt (fst a) anns anns ([], []) of
        Inl e \<Rightarrow> Inl e
      | Inr (aks, gks) \<Rightarrow>
          (case average aks of
             Inl e \<Rightarrow> Inl e
           | Inr a_avg \<Rightarrow>
               (case (if gks \<noteq> [] then average gks else Inr (Float 0)) of
                  Inl e \<Rightarrow> Inl e
                | Inr g_avg \<Rightarrow>
                    if fst a < length rt
                    then (case dict_get ac (fst a) (IntKey (fst a)) of
                            Inl e \<Rightarrow> Inl e
                          | Inr c \<Rightarrow>
                              Inr \<lparr>attr_freq = sum_list (map sum_list (rt ! fst a)),
                                   attr_name = snd a, avg_gold = g_avg, gold_kappas = gks,
                                   avg = a_avg, attr_kappas = aks,
                                   attr_counts_str = rev (sort_key fst c)\<rparr>)
                    else Inl IndexError)))"

fun attr_stats_loop ::
  "(nat list \<Rightarrow> nat list \<Rightarrow> pyfloat) \<Rightarrow> ratings \<Rightarrow> attr_counts \<Rightarrow> (nat \<times> string) list
     \<Rightarrow> (nat \<times> string) list \<Rightarrow> error + stat list" where
  "attr_stats_loop cohen rt ac anns [] = Inr []"
| "attr_stats_loop cohen rt ac anns (a # rest) =
     (case attr_stat cohen rt ac anns a of
        Inl e \<Rightarrow> Inl e
      | Inr x \<Rightarrow>
          (case attr_stats_loop cohen rt ac anns rest of
             Inl e \<Rightarrow> Inl e
           | Inr xs \<Rightarrow> Inr (x # xs)))"

text \<open>
  \<open>measure_agreement\<close>: the rows of the report in the order in which they are
  printed (line 192 sorts them by falling frequency); the formatting of the
  lines is left out.
\<close>

definition measure_agreement ::
  "(nat list \<Rightarrow> nat list \<Rightarrow> pyfloat) \<Rightarrow> data \<Rightarrow> vocabulary \<Rightarrow> vocabulary \<Rightarrow> error + stat list" where
  "measure_agreement cohen d attr_vocab annotator_vocab =
     (let rt0 = zeros (len_vocab attr_vocab) (len_vocab annotator_vocab) (length d);
          ac0 = map (\<lambda>(attr, w). (attr, [])) (id_to_word attr_vocab)
      in case rate_sens (map fst (id_to_word annotator_vocab)) 0 d (rt0, ac0) of
           Inl e \<Rightarrow> Inl e
         | Inr (rt, ac) \<Rightarrow>
             (case attr_stats_loop cohen rt ac (id_to_word annotator_vocab)
                     (id_to_word attr_vocab) of
                Inl e \<Rightarrow> Inl e
              | Inr stats \<Rightarrow> Inr (sort_key (\<lambda>x. - int (attr_freq x)) stats)))"

section \<open>main\<close>

definition IGNORE_EMPTY :: bool where
  "IGNORE_EMPTY = True"

text \<open>
  One run: \<open>report_file\<close> is what \<open>print_data\<close> wrote to
  \<open>annotation_output.tsv\<close> (\<open>None\<close> when loading raised before), \<open>reports\<close> is
  the exception that ended the run or the two reports together with the data as
  \<open>add_votes\<close> left them.
\<close>

record run =
  report_file :: "data option"
  reports :: "error + (stat list \<times> data \<times> gold_stats)"

definition main ::
  "(nat list \<Rightarrow> nat list \<Rightarrow> pyfloat) \<Rightarrow> (string list \<Rightarrow> string list) \<Rightarrow> input_file list \<Rightarrow> run" where
  "main cohen set_iter filenames =
     (case load_data set_iter filenames of
        Raised e st \<Rightarrow> \<lparr>report_file = None, reports = Inl e\<rparr>
      | Done st \<Rightarrow>
          (let d = print_data (ls_data st);
               d1 = (if IGNORE_EMPTY then remove_empty d else d)
           in \<lparr>report_file = Some d,
               reports =
                 (case measure_agreement cohen d1 (ls_attr_vocab st) (ls_annotator_vocab st) of
                    Inl e \<Rightarrow> Inl e
                  | Inr stats \<Rightarrow>
                      (case add_votes d1 (ls_attr_vocab st) (ls_annotator_vocab st) of
                         Inl e \<Rightarrow> Inl e
                       | Inr (d2, anv) \<Rightarrow>
                           (case eval_against_gold d2 (ls_attr_vocab st) anv of
                              Inl e \<Rightarrow> Inl e
                            | Inr (gs, av) \<Rightarrow> Inr (stats, d2, gs))))\<rparr>))"

section \<open>Inputs used below\<close>

definition header_row :: row where
  "header_row = [Some ''Sentence_ID'', Some ''Text'']"

text \<open>A data row with the sentence id, the text and the given labels in the
  label cells of the five pairs.\<close>

definition data_row :: "string \<Rightarrow> string \<Rightarrow> string option list \<Rightarrow> row" where
  "data_row sid txt labels = Some sid # Some txt # concat (map (\<lambda>l. [None, l]) labels)"

definition sheet :: "string \<Rightarrow> row list \<Rightarrow> input_file" where
  "sheet annotator rs = \<lparr>file_annotator = annotator, file_rows = header_row # rs\<rparr>"

definition alias_text :: string where
  "alias_text = ''Die Dachneigung darf 45 Grad nicht ueberschreiten.''"

text \<open>One row in which the annotator picked both \<open>BBDachneigungMax\<close> and
  \<open>DachneigungMax\<close>.\<close>

definition alias_row :: row where
  "alias_row = data_row ''s1'' alias_text
     [Some ''BBDachneigungMax'', Some ''DachneigungMax'', None, None, None]"

text \<open>Vocabularies and records written out for the examples.\<close>

definition vocab_of :: "string list \<Rightarrow> vocabulary" where
  "vocab_of ws = \<lparr>word_to_id = zip ws [0..<length ws], id_to_word = zip [0..<length ws] ws\<rparr>"

definition mk_sen :: "string \<Rightarrow> (nat \<times> nat list) list \<Rightarrow> (nat \<times> nat) list \<Rightarrow> sen" where
  "mk_sen sid an st =
     \<lparr>sen_id = sid, sen_text = Some alias_text, annot = an, attr_stats = st,
      full_agreement = None\<rparr>"

text \<open>What the loader returns for the file of \<open>ann1\<close> with that one row.\<close>

definition alias_state :: load_state where
  "alias_state =
     \<lparr>ls_data = [(''s1'', mk_sen ''s1'' [(0, [0, 0])] [(0, 2)])],
      ls_attr_vocab = vocab_of [''DachneigungMax''],
      ls_annotator_vocab = vocab_of [''ann1'']\<rparr>"

text \<open>
  The number of annotators other than gold that selected \<open>attr\<close> in the
  annotations \<open>an\<close> of one sentence.
\<close>

definition n_selected :: "vocabulary \<Rightarrow> (nat \<times> nat list) list \<Rightarrow> nat \<Rightarrow> nat" where
  "n_selected annotator_vocab an attr =
     length (filter (\<lambda>(ann, w). w \<noteq> ''gold'' \<and>
                       (case map_of an ann of None \<Rightarrow> False | Some attrs \<Rightarrow> attr \<in> set attrs))
               (id_to_word annotator_vocab))"

text \<open>One row with the single label \<open>DachneigungMax\<close>, and what the loader
  returns when each of the annotators \<open>anns\<close> hands in a file with that row.\<close>

definition plain_row :: row where
  "plain_row = data_row ''s1'' alias_text [Some ''DachneigungMax'', None, None, None, None]"

definition plain_state :: "string list \<Rightarrow> load_state" where
  "plain_state anns =
     \<lparr>ls_data = [(''s1'', mk_sen ''s1'' (map (\<lambda>a. (a, [0])) [0..<length anns])
                        [(0, length (filter (\<lambda>w. w \<noteq> ''gold'') anns))])],
      ls_attr_vocab = vocab_of [''DachneigungMax''],
      ls_annotator_vocab = vocab_of anns\<rparr>"

text \<open>Two sentences; \<open>ann1\<close> has annotated only the second one, gold has
  selected \<open>gold_attrs\<close> on the first.\<close>

definition gap_data :: "nat list \<Rightarrow> data" where
  "gap_data gold_attrs =
     [(''s1'', mk_sen ''s1'' [(0, gold_attrs)] (map (\<lambda>a. (a, 0)) gold_attrs)),
      (''s2'', mk_sen ''s2'' [(0, [0]), (1, [0])] [(0, 1)])]"



text \<open>
  Relations between states of the loader.  \<open>keeps st st'\<close>: every record of
  \<open>st\<close> is still in \<open>st'\<close>, with its id, its text and every annotation it
  had.  \<open>annotated annotator rs st\<close>: the sentence of the row \<open>rs\<close> has a record
  with the text of the row and an annotation of \<open>annotator\<close>.
\<close>

definition keeps :: "load_state \<Rightarrow> load_state \<Rightarrow> bool" where
  "keeps st st' =
     (\<forall>sid s. map_of (ls_data st) sid = Some s \<longrightarrow>
        (\<exists>s'. map_of (ls_data st') sid = Some s' \<and> sen_id s' = sen_id s \<and>
              sen_text s' = sen_text s \<and>
              (\<forall>a l. map_of (annot s) a = Some l \<longrightarrow> map_of (annot s') a = Some l)))"

definition annotated :: "nat \<Rightarrow> row_sen \<Rightarrow> load_state \<Rightarrow> bool" where
  "annotated annotator rs st =
     (case map_of (ls_data st) (rs_id rs) of
        None \<Rightarrow> False
      | Some s \<Rightarrow> sen_text s = rs_text rs \<and> annotator \<in> fst ` set (annot s))"

definition outcome_state :: "outcome \<Rightarrow> load_state" where
  "outcome_state out = (case out of Done st \<Rightarrow> st | Raised e st \<Rightarrow> st)"

text \<open>The rows of the two-file example: gold, then a file of \<open>ann1\<close> in which the
  same sentence occurs twice.\<close>

definition twice_file :: input_file where
  "twice_file = sheet ''ann1'' [plain_row, plain_row]"

text \<open>What \<open>gen_sens_from_file\<close> yields for \<open>plain_row\<close>.\<close>

definition plain_sen :: row_sen where
  "plain_sen = \<lparr>rs_id = ''s1'', rs_text = Some alias_text, attributes = [''DachneigungMax'']\<rparr>"

text \<open>
  The pairs of annotators in the order in which the two loops of lines 163-165
  reach them, split as line 173 splits them; \<open>kappa_of\<close> says that \<open>k\<close> is the
  kappa that lines 167-171 compute for a pair.  An annotator has never selected an
  attribute when no sentence lists it for them: their presence vector is all-zero.
\<close>

definition ann_pairs :: "(nat \<times> string) list \<Rightarrow> ((nat \<times> string) \<times> (nat \<times> string)) list" where
  "ann_pairs anns = concat (map (\<lambda>a1. map (Pair a1) (filter (\<lambda>a2. fst a1 < fst a2) anns)) anns)"

definition is_gold_pair :: "(nat \<times> string) \<times> (nat \<times> string) \<Rightarrow> bool" where
  "is_gold_pair p = (snd (fst p) = ''gold'' \<or> snd (snd p) = ''gold'')"

definition inter_pairs :: "(nat \<times> string) list \<Rightarrow> ((nat \<times> string) \<times> (nat \<times> string)) list" where
  "inter_pairs anns = filter (\<lambda>p. \<not> is_gold_pair p) (ann_pairs anns)"

definition gold_pairs :: "(nat \<times> string) list \<Rightarrow> ((nat \<times> string) \<times> (nat \<times> string)) list" where
  "gold_pairs anns = filter is_gold_pair (ann_pairs anns)"

definition kappa_of ::
  "(nat list \<Rightarrow> nat list \<Rightarrow> pyfloat) \<Rightarrow> ratings \<Rightarrow> nat \<Rightarrow> pyfloat
     \<Rightarrow> (nat \<times> string) \<times> (nat \<times> string) \<Rightarrow> bool" where
  "kappa_of cohen rt attr k p = (pair_kappa cohen rt attr (fst (fst p)) (fst (snd p)) = Inr k)"

definition never_selected :: "data \<Rightarrow> nat \<Rightarrow> nat \<Rightarrow> bool" where
  "never_selected d attr ann =
     list_all (\<lambda>(sid, s). case map_of (annot s) ann of None \<Rightarrow> True
                           | Some attrs \<Rightarrow> attr \<notin> set attrs) d"

definition untouched :: "data \<Rightarrow> nat \<Rightarrow> (nat \<times> string) \<times> (nat \<times> string) \<Rightarrow> bool" where
  "untouched d attr p =
     (never_selected d attr (fst (fst p)) \<and> never_selected d attr (fst (snd p)))"

text \<open>The example of the gold evaluation: two sentences, gold (id 0) and \<open>ann1\<close>
  (id 1) select attribute 0, \<open>ann2\<close> (id 2) selects attribute 1.\<close>

definition gold_example :: data where
  "gold_example =
     [(''s1'', mk_sen ''s1'' [(0, [0]), (1, [0]), (2, [1])] [(0, 1), (1, 1)]),
      (''s2'', mk_sen ''s2'' [(0, [0]), (1, [0]), (2, [1])] [(0, 1), (1, 1)])]"

definition gold_example_attrs :: vocabulary where
  "gold_example_attrs = vocab_of [''DachneigungMax'', ''GebaeudeHoeheMax'']"

definition gold_example_annotators :: vocabulary where
  "gold_example_annotators = vocab_of [''gold'', ''ann1'', ''ann2'']"

text \<open>
  What one sentence adds to the count \<open>figure\<close> of annotator \<open>ann\<close> for \<open>attr\<close>,
  as the claim words it: for an attribute that gold selected, one \<open>TP\<close> when the
  annotator selected it too and one \<open>FN\<close> otherwise; for an attribute that the
  annotator selected and gold did not, one \<open>FP\<close>.
\<close>

definition expected :: "nat \<Rightarrow> nat \<Rightarrow> nat \<Rightarrow> figure \<Rightarrow> sen \<Rightarrow> nat" where
  "expected gold_ann ann attr figure s =
     (case map_of (annot s) gold_ann of
        None \<Rightarrow> 0
      | Some gold_attrs \<Rightarrow>
          (case map_of (annot s) ann of
             None \<Rightarrow> 0
           | Some attrs \<Rightarrow>
               (case figure of
                  TP \<Rightarrow> if attr \<in> set gold_attrs \<and> attr \<in> set attrs then 1 else 0
                | FN \<Rightarrow> if attr \<in> set gold_attrs \<and> attr \<notin> set attrs then 1 else 0
                | FP \<Rightarrow> if attr \<in> set attrs \<and> attr \<notin> set gold_attrs then 1 else 0)))"

text \<open>
  How often the loops of lines 62-79 reach the increment of \<open>figure\<close> for \<open>ann\<close>
  and \<open>attr\<close> on one sentence: the loop of line 62 runs once for each element of
  gold's list, the loop of line 77 once for each element of the annotator's list.
\<close>

definition increments :: "nat \<Rightarrow> nat \<Rightarrow> nat \<Rightarrow> figure \<Rightarrow> sen \<Rightarrow> nat" where
  "increments gold_ann ann attr figure s =
     (case map_of (annot s) gold_ann of
        None \<Rightarrow> 0
      | Some gold_attrs \<Rightarrow>
          (case map_of (annot s) ann of
             None \<Rightarrow> 0
           | Some attrs \<Rightarrow>
               (case figure of
                  TP \<Rightarrow> if attr \<in> set attrs then count_list gold_attrs attr else 0
                | FN \<Rightarrow> if attr \<notin> set attrs then count_list gold_attrs attr else 0
                | FP \<Rightarrow> if attr \<notin> set gold_attrs then count_list attrs attr else 0)))"

text \<open>Gold with the row of the two labels \<open>BBDachneigungMax\<close> and
  \<open>DachneigungMax\<close>, two annotators with the one-label row, and what the loader
  returns for these three files.\<close>

definition gold_alias_files :: "input_file list" where
  "gold_alias_files =
     [sheet ''gold'' [alias_row], sheet ''ann1'' [plain_row], sheet ''ann2'' [plain_row]]"

definition gold_alias_state :: load_state where
  "gold_alias_state =
     \<lparr>ls_data = [(''s1'', mk_sen ''s1'' [(0, [0, 0]), (1, [0]), (2, [0])] [(0, 2)])],
      ls_attr_vocab = vocab_of [''DachneigungMax''],
      ls_annotator_vocab = vocab_of [''gold'', ''ann1'', ''ann2'']\<rparr>"

text \<open>Gold and \<open>ann1\<close> with the one-label row, and a third file whose annotator
  is named \<open>min1\<close> and selected \<open>GebaeudeHoeheMax\<close>; what the loader returns
  for them.\<close>

definition other_row :: row where
  "other_row = data_row ''s1'' alias_text [Some ''GebaeudeHoeheMax'', None, None, None, None]"

definition min1_files :: "input_file list" where
  "min1_files =
     [sheet ''gold'' [plain_row], sheet ''ann1'' [plain_row], sheet ''min1'' [other_row]]"

definition min1_state :: load_state where
  "min1_state =
     \<lparr>ls_data = [(''s1'', mk_sen ''s1'' [(0, [0]), (1, [0]), (2, [1])] [(0, 1), (1, 1)])],
      ls_attr_vocab = vocab_of [''DachneigungMax'', ''GebaeudeHoeheMax''],
      ls_annotator_vocab = vocab_of [''gold'', ''ann1'', ''min1'']\<rparr>"

text \<open>
  \<open>votes\<close>: how often \<open>attr\<close> occurs in the lists that the annotators of the
  vocabulary other than gold have in the annotations \<open>an\<close> of one sentence.
  \<open>is_quorum\<close>: \<open>v\<close> is the sorted list of the attributes with at least
  \<open>n\<close> votes.  \<open>known_annotators\<close>: every annotation of the data belongs to an
  annotator id of the vocabulary.
\<close>

definition votes :: "vocabulary \<Rightarrow> (nat \<times> nat list) list \<Rightarrow> nat \<Rightarrow> nat" where
  "votes annotator_vocab an attr =
     sum_list (map (\<lambda>(ann, w). if w = ''gold'' then 0
                                else (case map_of an ann of
                                        None \<Rightarrow> 0 | Some attrs \<Rightarrow> count_list attrs attr))
                 (id_to_word annotator_vocab))"

definition is_quorum :: "vocabulary \<Rightarrow> (nat \<times> nat list) list \<Rightarrow> nat \<Rightarrow> nat list \<Rightarrow> bool" where
  "is_quorum annotator_vocab an n v =
     (sorted v \<and> distinct v \<and> set v = {attr. n \<le> votes annotator_vocab an attr})"

definition known_annotators :: "vocabulary \<Rightarrow> data \<Rightarrow> bool" where
  "known_annotators annotator_vocab d =
     list_all (\<lambda>(sid, s). list_all (\<lambda>(ann, attrs). ann < len_vocab annotator_vocab) (annot s)) d"

text \<open>
  \<open>vote_of\<close> is the summand of \<open>votes\<close> for one annotator.  \<open>sen_ok\<close> and
  \<open>loaded_ok\<close> say what holds for the records while the loader runs: the
  annotations belong to known annotators and are sorted, \<open>attr_stats\<close> holds the
  votes, and it has an entry for exactly the attributes that occur in an annotation
  of the sentence, gold's included.
\<close>

definition vote_of :: "(nat \<times> nat list) list \<Rightarrow> nat \<Rightarrow> nat \<times> string \<Rightarrow> nat" where
  "vote_of an attr p = (if snd p = ''gold'' then 0
                         else (case map_of an (fst p) of
                                 None \<Rightarrow> 0 | Some attrs \<Rightarrow> count_list attrs attr))"

definition sen_ok :: "vocabulary \<Rightarrow> sen \<Rightarrow> bool" where
  "sen_ok anv s =
     ((\<forall>k\<in>fst ` set (annot s). k < len_vocab anv) \<and>
      (\<forall>l\<in>snd ` set (annot s). sorted l) \<and>
      (\<forall>attr. counter_get (attr_stats s) attr = votes anv (annot s) attr) \<and>
      fst ` set (attr_stats s) = (\<Union>l\<in>snd ` set (annot s). set l))"

definition loaded_ok :: "load_state \<Rightarrow> bool" where
  "loaded_ok st =
     (wf_vocab (ls_annotator_vocab st) \<and>
      (\<forall>p\<in>set (ls_data st). sen_ok (ls_annotator_vocab st) (snd p)))"

section \<open>Properties\<close>

subsection \<open>Evaluation of the examples\<close>

lemma two_orders:
  assumes "set l = {a, b}" "distinct l" "a \<noteq> b"
  shows "l = [a, b] \<or> l = [b, a]"
proof -
  have "length l = 2" using assms distinct_card[of l] by simp
  then obtain x y where l: "l = [x, y]"
    by (cases l; cases "tl l") auto
  with assms show ?thesis by (auto simp: doubleton_eq_iff)
qed

lemma is_error: "(case x of Inl e \<Rightarrow> e = err | Inr y \<Rightarrow> False) \<Longrightarrow> x = Inl err"
  by (cases x) auto

lemma gen_header: "gen_row 0 header_row = Inr None"
  by code_simp

lemma gen_alias:
  "gen_row (Suc 0) alias_row =
     Inr (Some \<lparr>rs_id = ''s1'', rs_text = Some alias_text,
                attributes = [''BBDachneigungMax'', ''DachneigungMax'']\<rparr>)"
  by code_simp

lemma intern_alias:
  assumes "set l = {''BBDachneigungMax'', ''DachneigungMax''}" "distinct l"
  shows "intern_attrs l Vocabulary = Inr ([0, 0], vocab_of [''DachneigungMax''])"
proof -
  have "l = [''BBDachneigungMax'', ''DachneigungMax''] \<or>
        l = [''DachneigungMax'', ''BBDachneigungMax'']"
    using assms by (intro two_orders) auto
  moreover have "intern_attrs [''BBDachneigungMax'', ''DachneigungMax''] Vocabulary =
      Inr ([0, 0], vocab_of [''DachneigungMax''])"
    by code_simp
  moreover have "intern_attrs [''DachneigungMax'', ''BBDachneigungMax''] Vocabulary =
      Inr ([0, 0], vocab_of [''DachneigungMax''])"
    by code_simp
  ultimately show ?thesis by auto
qed

text \<open>Whatever the order in which the set of the two raw labels is iterated, the
  loader stores the id of \<open>DachneigungMax\<close> twice and counts two votes.\<close>

lemma load_alias:
  assumes "set (set_iter [''BBDachneigungMax'', ''DachneigungMax'']) =
             {''BBDachneigungMax'', ''DachneigungMax''}"
    and "distinct (set_iter [''BBDachneigungMax'', ''DachneigungMax''])"
  shows "load_data set_iter [sheet ''ann1'' [alias_row]] = Done alias_state"
  using intern_alias[OF assms]
  by (simp add: load_data_def load_file_def sheet_def get_id_def Vocabulary_def len_vocab_def
      gen_header gen_alias merge_sen_def ensure_sen_def annotate_sen_def get_word_def
      dict_get_def counter_inc_def counter_get_def alias_state_def mk_sen_def vocab_of_def)

lemma gen_plain:
  "gen_row (Suc 0) plain_row =
     Inr (Some \<lparr>rs_id = ''s1'', rs_text = Some alias_text, attributes = [''DachneigungMax'']\<rparr>)"
  by code_simp

lemma load_plain1:
  assumes "set_iter [''DachneigungMax''] = [''DachneigungMax'']"
  shows "load_data set_iter [sheet ''ann1'' [plain_row]] = Done (plain_state [''ann1''])"
  using assms
  by (simp add: load_data_def load_file_def sheet_def get_id_def Vocabulary_def len_vocab_def
      gen_header gen_plain merge_sen_def ensure_sen_def annotate_sen_def get_word_def
      dict_get_def counter_inc_def counter_get_def plain_state_def mk_sen_def vocab_of_def
      preprocess_attr_def REPLACEMENT_PAIRS_def)

lemma load_plain2:
  assumes "set_iter [''DachneigungMax''] = [''DachneigungMax'']"
  shows "load_data set_iter [sheet ''gold'' [plain_row], sheet ''ann1'' [plain_row]] =
           Done (plain_state [''gold'', ''ann1''])"
  using assms
  by (simp add: load_data_def load_file_def sheet_def get_id_def Vocabulary_def len_vocab_def
      gen_header gen_plain merge_sen_def ensure_sen_def annotate_sen_def get_word_def
      dict_get_def counter_inc_def counter_get_def plain_state_def mk_sen_def vocab_of_def
      preprocess_attr_def REPLACEMENT_PAIRS_def counter_touch_def)

lemma measure_plain1:
  "measure_agreement cohen (remove_empty (print_data (ls_data (plain_state [''ann1''])))) 
     (ls_attr_vocab (plain_state [''ann1''])) (ls_annotator_vocab (plain_state [''ann1''])) =
   Inl ZeroDivisionError"
  by code_simp

lemma measure_plain2:
  "measure_agreement cohen
     (remove_empty (print_data (ls_data (plain_state [''gold'', ''ann1'']))))
     (ls_attr_vocab (plain_state [''gold'', ''ann1'']))
     (ls_annotator_vocab (plain_state [''gold'', ''ann1''])) =
   Inl ZeroDivisionError"
  by code_simp

text \<open>The three files in which gold has the row with both labels: gold's list is
  \<open>[0, 0]\<close>, whatever the iteration order of the set.\<close>

lemma load_gold_alias:
  assumes "set (set_iter [''BBDachneigungMax'', ''DachneigungMax'']) =
             {''BBDachneigungMax'', ''DachneigungMax''}"
    and "distinct (set_iter [''BBDachneigungMax'', ''DachneigungMax''])"
    and "set_iter [''DachneigungMax''] = [''DachneigungMax'']"
  shows "load_data set_iter gold_alias_files = Done gold_alias_state"
  using intern_alias[OF assms(1,2)] assms(3)
  by (simp add: gold_alias_files_def load_data_def load_file_def sheet_def get_id_def
      Vocabulary_def len_vocab_def gen_header gen_alias gen_plain merge_sen_def ensure_sen_def
      annotate_sen_def get_word_def dict_get_def counter_inc_def counter_get_def
      gold_alias_state_def mk_sen_def vocab_of_def preprocess_attr_def REPLACEMENT_PAIRS_def
      counter_touch_def)

lemma measure_gold_alias:
  "case measure_agreement cohen (remove_empty (print_data (ls_data gold_alias_state)))
          (ls_attr_vocab gold_alias_state) (ls_annotator_vocab gold_alias_state) of
     Inl e \<Rightarrow> False
   | Inr stats \<Rightarrow> True"
  by code_simp

lemma votes_gold_alias:
  "add_votes (remove_empty (print_data (ls_data gold_alias_state)))
     (ls_attr_vocab gold_alias_state) (ls_annotator_vocab gold_alias_state) =
   Inr ([(''s1'', (mk_sen ''s1'' [(0, [0, 0]), (1, [0]), (2, [0]), (3, [0]), (4, [0]), (5, [])]
                     [(0, 2)])\<lparr>full_agreement := Some False\<rparr>)],
        vocab_of [''gold'', ''ann1'', ''ann2'', ''min1'', ''min2'', ''min3''])"
  by code_simp

lemma eval_gold_alias:
  "case eval_against_gold
          [(''s1'', (mk_sen ''s1'' [(0, [0, 0]), (1, [0]), (2, [0]), (3, [0]), (4, [0]), (5, [])]
                       [(0, 2)])\<lparr>full_agreement := Some False\<rparr>)]
          (ls_attr_vocab gold_alias_state)
          (vocab_of [''gold'', ''ann1'', ''ann2'', ''min1'', ''min2'', ''min3'']) of
     Inl e \<Rightarrow> False
   | Inr (gs, av) \<Rightarrow> stats_row gs 0 1 TP = 2 \<and> stats_row gs 0 1 FN = 0"
  by code_simp

subsection \<open>The report file\<close>






subsection \<open>The loader\<close>

lemma keeps_refl: "keeps st st"
  by (simp add: keeps_def)

lemma keeps_trans: "keeps a b \<Longrightarrow> keeps b c \<Longrightarrow> keeps a c"
  unfolding keeps_def by (metis (no_types, lifting))

lemma in_keys_iff: "(k \<in> fst ` set al) = (map_of al k \<noteq> None)"
  by (simp add: map_of_eq_None_iff)

lemma annotated_keeps: "annotated a rs st \<Longrightarrow> keeps st st' \<Longrightarrow> annotated a rs st'"
  unfolding annotated_def keeps_def in_keys_iff
  by (fastforce split: option.splits)

lemma ensure_sen_keeps: "keeps st (outcome_state (ensure_sen rs st))"
  by (auto simp: ensure_sen_def outcome_state_def keeps_def update_conv' split: option.splits)

lemma get_id_new: "\<exists>i v'. get_id w True v = Inr (i, v')"
  by (simp add: get_id_def Let_def split: option.splits)

lemma intern_attrs_ok: "\<exists>ids v'. intern_attrs as v = Inr (ids, v')"
proof (induction as arbitrary: v)
  case Nil
  then show ?case by simp
next
  case (Cons a as)
  obtain i v1 where 1: "get_id (preprocess_attr a) True v = Inr (i, v1)"
    using get_id_new by blast
  obtain ids v2 where 2: "intern_attrs as v1 = Inr (ids, v2)"
    using Cons.IH by blast
  show ?case by (simp add: 1 2)
qed

lemma annotate_sen_keeps: "keeps st (outcome_state (annotate_sen set_iter a rs st))"
  by (auto simp: annotate_sen_def outcome_state_def keeps_def update_conv' Let_def in_keys_iff
      split: option.splits sum.splits)

lemma merge_sen_keeps: "keeps st (outcome_state (merge_sen set_iter a rs st))"
proof (cases "ensure_sen rs st")
  case (Done st0)
  have "keeps st st0" using ensure_sen_keeps[of st rs] Done by (simp add: outcome_state_def)
  moreover have "keeps st0 (outcome_state (annotate_sen set_iter a rs st0))"
    by (rule annotate_sen_keeps)
  ultimately show ?thesis by (simp add: merge_sen_def Done keeps_trans)
next
  case (Raised e st')
  then show ?thesis using ensure_sen_keeps[of st rs] by (simp add: merge_sen_def)
qed

lemma merge_sen_annotated:
  "merge_sen set_iter a rs st = Done st' \<Longrightarrow> annotated a rs st'"
  by (auto simp: merge_sen_def ensure_sen_def annotate_sen_def annotated_def update_conv' Let_def
      dom_update split: option.splits sum.splits if_splits outcome.splits)

lemma load_rows_keeps: "keeps st (outcome_state (load_rows set_iter a i rows st))"
proof (induction rows arbitrary: st i)
  case Nil
  then show ?case by (simp add: outcome_state_def keeps_refl)
next
  case (Cons r rows)
  show ?case
  proof (cases "gen_row i r")
    case (Inl e)
    then show ?thesis by (simp add: outcome_state_def keeps_refl)
  next
    case (Inr y)
    show ?thesis
    proof (cases y)
      case None
      then show ?thesis using Inr Cons.IH by simp
    next
      case (Some rs)
      show ?thesis
      proof (cases "merge_sen set_iter a rs st")
        case (Done st')
        have "keeps st st'" using merge_sen_keeps[of st set_iter a rs] Done
          by (simp add: outcome_state_def)
        then show ?thesis using Inr Some Done Cons.IH[of st' "Suc i"]
          by (auto intro: keeps_trans)
      next
        case (Raised e st')
        then show ?thesis using Inr Some merge_sen_keeps[of st set_iter a rs] by simp
      qed
    qed
  qed
qed

lemma merge_sen_fatal:
  assumes "map_of (ls_data st) (rs_id rs) = Some s"
    and "sen_text s \<noteq> rs_text rs \<or> annotator \<in> fst ` set (annot s)"
  shows "merge_sen set_iter annotator rs st = Raised AssertionError st"
  using assms by (auto simp: merge_sen_def ensure_sen_def annotate_sen_def)

lemma load_rows_again:
  assumes "load_rows set_iter a i rows st = Done st1"
    and "keeps st1 st2"
    and "\<exists>j<length rows. \<exists>rs. gen_row (i + j) (rows ! j) = Inr (Some rs)"
  shows "load_rows set_iter a i rows st2 = Raised AssertionError st2"
  using assms
proof (induction rows arbitrary: st i)
  case Nil
  then show ?case by simp
next
  case (Cons r rows)
  show ?case
  proof (cases "gen_row i r")
    case (Inl e)
    then show ?thesis using Cons.prems by simp
  next
    case (Inr y)
    show ?thesis
    proof (cases y)
      case None
      from Cons.prems(3) obtain j rs where j: "j < length (r # rows)"
        "gen_row (i + j) ((r # rows) ! j) = Inr (Some rs)" by blast
      have "j \<noteq> 0" using j Inr None by (cases j) auto
      then obtain k where k: "j = Suc k" by (cases j) auto
      have "\<exists>j<length rows. \<exists>rs. gen_row (Suc i + j) (rows ! j) = Inr (Some rs)"
        using j k by auto
      moreover have "load_rows set_iter a (Suc i) rows st = Done st1"
        using Cons.prems(1) Inr None by simp
      ultimately have "load_rows set_iter a (Suc i) rows st2 = Raised AssertionError st2"
        using Cons.IH Cons.prems(2) by blast
      then show ?thesis using Inr None by simp
    next
      case (Some rs)
      then obtain st' where m: "merge_sen set_iter a rs st = Done st'"
        and l: "load_rows set_iter a (Suc i) rows st' = Done st1"
        using Cons.prems(1) Inr by (auto split: outcome.splits)
      have "annotated a rs st'" using m by (rule merge_sen_annotated)
      moreover have "keeps st' st1"
        using load_rows_keeps[of st' set_iter a "Suc i" rows] l by (simp add: outcome_state_def)
      ultimately have "annotated a rs st2"
        using Cons.prems(2) by (blast intro: annotated_keeps)
      then have "merge_sen set_iter a rs st2 = Raised AssertionError st2"
        by (auto simp: annotated_def intro: merge_sen_fatal split: option.splits)
      then show ?thesis using Inr Some by simp
    qed
  qed
qed

lemma merge_sen_annotator_vocab:
  "ls_annotator_vocab (outcome_state (merge_sen set_iter a rs st)) = ls_annotator_vocab st"
  by (auto simp: merge_sen_def ensure_sen_def annotate_sen_def outcome_state_def Let_def
      split: option.splits sum.splits outcome.splits)

lemma load_rows_annotator_vocab:
  "ls_annotator_vocab (outcome_state (load_rows set_iter a i rows st)) = ls_annotator_vocab st"
proof (induction rows arbitrary: st i)
  case Nil
  then show ?case by (simp add: outcome_state_def)
next
  case (Cons r rows)
  show ?case
  proof (cases "gen_row i r")
    case (Inl e)
    then show ?thesis by (simp add: outcome_state_def)
  next
    case (Inr y)
    show ?thesis
    proof (cases y)
      case None
      then show ?thesis using Inr Cons.IH by simp
    next
      case (Some rs)
      show ?thesis
      proof (cases "merge_sen set_iter a rs st")
        case (Done st')
        have "ls_annotator_vocab st' = ls_annotator_vocab st"
          using merge_sen_annotator_vocab[of set_iter a rs st] Done
          by (simp add: outcome_state_def)
        then show ?thesis using Inr Some Done Cons.IH[of "Suc i" st'] by simp
      next
        case (Raised e st')
        then show ?thesis
          using Inr Some merge_sen_annotator_vocab[of set_iter a rs st] by simp
      qed
    qed
  qed
qed

lemma get_id_known:
  "get_id w b v = Inr (i, v') \<Longrightarrow> get_id w b' v' = Inr (i, v')"
  by (auto simp: get_id_def Let_def split: option.splits if_splits)

lemma load_file_again:
  assumes "load_file set_iter f st = Done st1"
    and "j < length (file_rows f)" and "gen_row j (file_rows f ! j) = Inr (Some rs)"
  shows "load_file set_iter f st1 = Raised AssertionError st1"
proof -
  obtain a anv where g: "get_id (file_annotator f) True (ls_annotator_vocab st) = Inr (a, anv)"
    using get_id_new by blast
  have l: "load_rows set_iter a 0 (file_rows f) (st\<lparr>ls_annotator_vocab := anv\<rparr>) = Done st1"
    using assms(1) g by (simp add: load_file_def)
  have anv1: "ls_annotator_vocab st1 = anv"
    using load_rows_annotator_vocab[of set_iter a 0 "file_rows f" "st\<lparr>ls_annotator_vocab := anv\<rparr>"] l
    by (simp add: outcome_state_def)
  have g1: "get_id (file_annotator f) True (ls_annotator_vocab st1) = Inr (a, anv)"
    using get_id_known[OF g] anv1 by simp
  have ex: "\<exists>j<length (file_rows f). \<exists>rs. gen_row (0 + j) (file_rows f ! j) = Inr (Some rs)"
    using assms(2,3) by auto
  have "st1\<lparr>ls_annotator_vocab := anv\<rparr> = st1" using anv1 by simp
  then show ?thesis
    using load_rows_again[OF l keeps_refl ex] g1 by (simp add: load_file_def)
qed

lemma load_file_keeps: "keeps st (outcome_state (load_file set_iter f st))"
proof -
  obtain a anv where g: "get_id (file_annotator f) True (ls_annotator_vocab st) = Inr (a, anv)"
    using get_id_new by blast
  have "keeps st (st\<lparr>ls_annotator_vocab := anv\<rparr>)"
    by (simp add: keeps_def)
  moreover have "keeps (st\<lparr>ls_annotator_vocab := anv\<rparr>)
      (outcome_state (load_rows set_iter a 0 (file_rows f) (st\<lparr>ls_annotator_vocab := anv\<rparr>)))"
    by (rule load_rows_keeps)
  ultimately show ?thesis
    using g by (simp add: load_file_def keeps_trans)
qed

lemma load_gold_plain:
  "load_data remdups [sheet ''gold'' [plain_row]] = Done (plain_state [''gold''])"
  by code_simp

lemma load_twice_file:
  "load_file remdups twice_file (plain_state [''gold'']) =
     Raised AssertionError (plain_state [''gold'', ''ann1''])"
  by code_simp

subsection \<open>The kappa lists\<close>

lemma kappas_inner_pairs:
  assumes "kappas_inner cohen rt attr a1 anns (aks, gks) = Inr (aks', gks')"
  shows "\<exists>ks gs. aks' = aks @ ks \<and> gks' = gks @ gs \<and>
           list_all2 (kappa_of cohen rt attr) ks
             (filter (\<lambda>p. \<not> is_gold_pair p) (map (Pair a1) (filter (\<lambda>a2. fst a1 < fst a2) anns))) \<and>
           list_all2 (kappa_of cohen rt attr) gs
             (filter is_gold_pair (map (Pair a1) (filter (\<lambda>a2. fst a1 < fst a2) anns)))"
  using assms
proof (induction anns arbitrary: aks gks)
  case Nil
  then show ?case by simp
next
  case (Cons a2 rest)
  show ?case
  proof (cases "fst a1 \<ge> fst a2")
    case True
    then show ?thesis using Cons by simp
  next
    case False
    then obtain k where k: "pair_kappa cohen rt attr (fst a1) (fst a2) = Inr k"
      using Cons.prems by (cases "pair_kappa cohen rt attr (fst a1) (fst a2)") auto
    have kk: "kappa_of cohen rt attr k (a1, a2)"
      using k by (simp add: kappa_of_def)
    show ?thesis
    proof (cases "is_gold_pair (a1, a2)")
      case True
      then have "kappas_inner cohen rt attr a1 rest (aks, gks @ [k]) = Inr (aks', gks')"
        using Cons.prems False k by (simp add: is_gold_pair_def)
      from Cons.IH[OF this] obtain ks gs where
        "aks' = aks @ ks" "gks' = (gks @ [k]) @ gs"
        "list_all2 (kappa_of cohen rt attr) ks
           (filter (\<lambda>p. \<not> is_gold_pair p) (map (Pair a1) (filter (\<lambda>a2. fst a1 < fst a2) rest)))"
        "list_all2 (kappa_of cohen rt attr) gs
           (filter is_gold_pair (map (Pair a1) (filter (\<lambda>a2. fst a1 < fst a2) rest)))"
        by blast
      then show ?thesis using True False kk
        by (rule_tac x = ks in exI, rule_tac x = "k # gs" in exI) simp
    next
      case g: False
      then have "kappas_inner cohen rt attr a1 rest (aks @ [k], gks) = Inr (aks', gks')"
        using Cons.prems False k by (simp add: is_gold_pair_def)
      from Cons.IH[OF this] obtain ks gs where
        "aks' = (aks @ [k]) @ ks" "gks' = gks @ gs"
        "list_all2 (kappa_of cohen rt attr) ks
           (filter (\<lambda>p. \<not> is_gold_pair p) (map (Pair a1) (filter (\<lambda>a2. fst a1 < fst a2) rest)))"
        "list_all2 (kappa_of cohen rt attr) gs
           (filter is_gold_pair (map (Pair a1) (filter (\<lambda>a2. fst a1 < fst a2) rest)))"
        by blast
      then show ?thesis using g False kk
        by (rule_tac x = "k # ks" in exI, rule_tac x = gs in exI) simp
    qed
  qed
qed

lemma kappas_outer_pairs:
  assumes "kappas_outer cohen rt attr as anns (aks, gks) = Inr (aks', gks')"
  shows "\<exists>ks gs. aks' = aks @ ks \<and> gks' = gks @ gs \<and>
           list_all2 (kappa_of cohen rt attr) ks
             (filter (\<lambda>p. \<not> is_gold_pair p)
                (concat (map (\<lambda>a1. map (Pair a1) (filter (\<lambda>a2. fst a1 < fst a2) anns)) as))) \<and>
           list_all2 (kappa_of cohen rt attr) gs
             (filter is_gold_pair
                (concat (map (\<lambda>a1. map (Pair a1) (filter (\<lambda>a2. fst a1 < fst a2) anns)) as)))"
  using assms
proof (induction as arbitrary: aks gks)
  case Nil
  then show ?case by simp
next
  case (Cons a1 rest)
  from Cons.prems obtain aks1 gks1 where
    i: "kappas_inner cohen rt attr a1 anns (aks, gks) = Inr (aks1, gks1)" and
    o: "kappas_outer cohen rt attr rest anns (aks1, gks1) = Inr (aks', gks')"
    by (auto split: sum.splits)
  from kappas_inner_pairs[OF i] obtain ks1 gs1 where 1:
    "aks1 = aks @ ks1" "gks1 = gks @ gs1"
    "list_all2 (kappa_of cohen rt attr) ks1
       (filter (\<lambda>p. \<not> is_gold_pair p) (map (Pair a1) (filter (\<lambda>a2. fst a1 < fst a2) anns)))"
    "list_all2 (kappa_of cohen rt attr) gs1
       (filter is_gold_pair (map (Pair a1) (filter (\<lambda>a2. fst a1 < fst a2) anns)))"
    by blast
  from Cons.IH[OF o] obtain ks2 gs2 where 2:
    "aks' = aks1 @ ks2" "gks' = gks1 @ gs2"
    "list_all2 (kappa_of cohen rt attr) ks2
       (filter (\<lambda>p. \<not> is_gold_pair p)
          (concat (map (\<lambda>a1. map (Pair a1) (filter (\<lambda>a2. fst a1 < fst a2) anns)) rest)))"
    "list_all2 (kappa_of cohen rt attr) gs2
       (filter is_gold_pair
          (concat (map (\<lambda>a1. map (Pair a1) (filter (\<lambda>a2. fst a1 < fst a2) anns)) rest)))"
    by blast
  show ?case using 1 2
    by (rule_tac x = "ks1 @ ks2" in exI, rule_tac x = "gs1 @ gs2" in exI) (simp add: list_all2_appendI)
qed

lemma attr_stat_kappas:
  assumes "attr_stat cohen rt ac anns a = Inr x"
  shows "attr_name x = snd a \<and>
         list_all2 (kappa_of cohen rt (fst a)) (attr_kappas x) (inter_pairs anns) \<and>
         list_all2 (kappa_of cohen rt (fst a)) (gold_kappas x) (gold_pairs anns)"
proof -
  from assms obtain aks gks where
    k: "kappas_outer cohen rt (fst a) anns anns ([], []) = Inr (aks, gks)"
    by (auto simp: attr_stat_def split: sum.splits)
  have x: "attr_name x = snd a \<and> attr_kappas x = aks \<and> gold_kappas x = gks"
    using assms k by (auto simp: attr_stat_def split: sum.splits if_splits)
  from kappas_outer_pairs[OF k] show ?thesis
    using x by (auto simp: inter_pairs_def gold_pairs_def ann_pairs_def)
qed

lemma set_rating_shape:
  "set_rating attr ann i rt = Inr rt' \<Longrightarrow> map (map length) rt' = map (map length) rt"
proof -
  assume a: "set_rating attr ann i rt = Inr rt'"
  then have r: "attr < length rt" "ann < length (rt ! attr)"
    "rt' = rt[attr := (rt ! attr)[ann := (rt ! attr ! ann)[i := 1]]]"
    by (auto simp: set_rating_def split: if_splits)
  have "map length ((rt ! attr)[ann := (rt ! attr ! ann)[i := 1]]) = map length (rt ! attr)"
    using r(2) by (simp add: map_update) (metis length_map list_update_id nth_map)
  then show ?thesis
    using r(1) unfolding r(3) by (simp add: map_update) (metis length_map list_update_id nth_map)
qed

lemma set_rating_other:
  "set_rating attr ann i rt = Inr rt' \<Longrightarrow> attr' \<noteq> attr \<or> ann' \<noteq> ann
     \<Longrightarrow> rt' ! attr' ! ann' = rt ! attr' ! ann'"
  by (cases "attr' = attr") (auto simp: set_rating_def split: if_splits)

lemma rate_attrs_other:
  "rate_attrs ann i attrs rt = Inr rt' \<Longrightarrow> attr' \<notin> set attrs \<or> ann' \<noteq> ann
     \<Longrightarrow> rt' ! attr' ! ann' = rt ! attr' ! ann' \<and> map (map length) rt' = map (map length) rt"
proof (induction attrs arbitrary: rt)
  case Nil
  then show ?case by simp
next
  case (Cons attr attrs)
  from Cons.prems(1) obtain rt1 where 1: "set_rating attr ann i rt = Inr rt1"
    and 2: "rate_attrs ann i attrs rt1 = Inr rt'"
    by (auto split: sum.splits)
  have "rt1 ! attr' ! ann' = rt ! attr' ! ann'"
    using set_rating_other[OF 1] Cons.prems(2) by auto
  moreover have "map (map length) rt1 = map (map length) rt"
    by (rule set_rating_shape[OF 1])
  moreover have "rt' ! attr' ! ann' = rt1 ! attr' ! ann' \<and> map (map length) rt' = map (map length) rt1"
    using Cons.IH[OF 2] Cons.prems(2) by auto
  ultimately show ?case by simp
qed

lemma rate_attrs_shape:
  "rate_attrs ann i attrs rt = Inr rt' \<Longrightarrow> map (map length) rt' = map (map length) rt"
proof (induction attrs arbitrary: rt)
  case Nil
  then show ?case by simp
next
  case (Cons attr attrs)
  from Cons.prems(1) obtain rt1 where 1: "set_rating attr ann i rt = Inr rt1"
    and 2: "rate_attrs ann i attrs rt1 = Inr rt'"
    by (auto split: sum.splits)
  show ?case using set_rating_shape[OF 1] Cons.IH[OF 2] by simp
qed

lemma rate_anns_other:
  "rate_anns sid an i anns rt = Inr rt' \<Longrightarrow>
   (case map_of an ann' of None \<Rightarrow> True | Some attrs \<Rightarrow> attr' \<notin> set attrs)
     \<Longrightarrow> rt' ! attr' ! ann' = rt ! attr' ! ann' \<and> map (map length) rt' = map (map length) rt"
proof (induction anns arbitrary: rt)
  case Nil
  then show ?case by simp
next
  case (Cons ann anns)
  from Cons.prems(1) obtain attrs rt1 where 0: "map_of an ann = Some attrs"
    and 1: "rate_attrs ann i attrs rt = Inr rt1"
    and 2: "rate_anns sid an i anns rt1 = Inr rt'"
    by (auto split: option.splits sum.splits)
  have "attr' \<notin> set attrs \<or> ann' \<noteq> ann"
    using 0 Cons.prems(2) by (cases "ann' = ann") auto
  then have "rt1 ! attr' ! ann' = rt ! attr' ! ann'"
    using rate_attrs_other[OF 1] by blast
  moreover have "map (map length) rt1 = map (map length) rt"
    by (rule rate_attrs_shape[OF 1])
  moreover have "rt' ! attr' ! ann' = rt1 ! attr' ! ann' \<and> map (map length) rt' = map (map length) rt1"
    using Cons.IH[OF 2 Cons.prems(2)] .
  ultimately show ?case by simp
qed

lemma rate_sens_other:
  "rate_sens ids i d (rt, ac) = Inr (rt', ac') \<Longrightarrow> never_selected d attr' ann'
     \<Longrightarrow> rt' ! attr' ! ann' = rt ! attr' ! ann' \<and> map (map length) rt' = map (map length) rt"
proof (induction d arbitrary: rt ac i)
  case Nil
  then show ?case by simp
next
  case (Cons p d)
  obtain sid s where p: "p = (sid, s)" by (cases p)
  from Cons.prems(1) obtain rt1 ac1 where 1: "rate_anns sid (annot s) i ids rt = Inr rt1"
    and 2: "rate_sens ids (Suc i) d (rt1, ac1) = Inr (rt', ac')"
    unfolding p by (auto split: sum.splits)
  have a: "case map_of (annot s) ann' of None \<Rightarrow> True | Some attrs \<Rightarrow> attr' \<notin> set attrs"
    and b: "never_selected d attr' ann'"
    using Cons.prems(2) unfolding p never_selected_def by auto
  show ?case using rate_anns_other[OF 1 a] Cons.IH[OF 2 b] by simp
qed

lemma zeros_vec:
  "attr < a \<Longrightarrow> ann < b \<Longrightarrow> zeros a b c ! attr ! ann = replicate c 0"
  by (simp add: zeros_def)

lemma untouched_vec:
  assumes r: "rate_sens ids 0 d (zeros a b c, ac0) = Inr (rt, ac)"
    and n: "never_selected d attr ann"
    and g: "get_vec rt attr ann = Inr vec"
  shows "\<not> any_nonzero vec"
proof -
  from rate_sens_other[OF r n]
  have 1: "rt ! attr ! ann = zeros a b c ! attr ! ann"
    and 2: "map (map length) rt = map (map length) (zeros a b c)" by auto
  from g have 3: "attr < length rt" "ann < length (rt ! attr)" "vec = rt ! attr ! ann"
    by (auto simp: get_vec_def split: if_splits)
  have "length rt = a" using 2 by (metis length_map length_replicate zeros_def)
  moreover have "length (rt ! attr) = b"
  proof -
    have "map length (rt ! attr) = map length (zeros a b c ! attr)"
      using 2 3(1) by (metis length_map nth_map)
    then have "length (rt ! attr) = length (zeros a b c ! attr)"
      by (metis length_map)
    then show ?thesis using 3(1) \<open>length rt = a\<close> by (simp add: zeros_def)
  qed
  ultimately have "vec = replicate c 0"
    using 1 3 zeros_vec by simp
  then show ?thesis by (simp add: any_nonzero_def list_ex_iff)
qed

lemma untouched_kappa:
  assumes r: "rate_sens ids 0 d (zeros a b c, ac0) = Inr (rt, ac)"
    and u: "untouched d attr p"
    and k: "kappa_of cohen rt attr k p"
  shows "k = Float 1"
proof -
  from k obtain v1 v2 where v: "get_vec rt attr (fst (fst p)) = Inr v1"
      "get_vec rt attr (fst (snd p)) = Inr v2"
    by (auto simp: kappa_of_def pair_kappa_def split: sum.splits)
  have "\<not> any_nonzero v1" "\<not> any_nonzero v2"
    using untouched_vec[OF r _ v(1)] untouched_vec[OF r _ v(2)] u by (auto simp: untouched_def)
  then show ?thesis using k v by (simp add: kappa_of_def pair_kappa_def)
qed

lemma attr_stats_loop_mem:
  "attr_stats_loop cohen rt ac anns as = Inr xs \<Longrightarrow> a \<in> set as
     \<Longrightarrow> \<exists>x\<in>set xs. attr_stat cohen rt ac anns a = Inr x"
proof (induction as arbitrary: xs)
  case Nil
  then show ?case by simp
next
  case (Cons b as)
  from Cons.prems(1) obtain x rest where 1: "attr_stat cohen rt ac anns b = Inr x"
    and 2: "attr_stats_loop cohen rt ac anns as = Inr rest" and 3: "xs = x # rest"
    by (auto split: sum.splits)
  show ?case
  proof (cases "a = b")
    case True
    then show ?thesis using 1 3 by simp
  next
    case False
    then have "a \<in> set as" using Cons.prems(2) by simp
    from Cons.IH[OF 2 this] show ?thesis using 3 by auto
  qed
qed

subsection \<open>The counts of the gold evaluation\<close>

lemma stats_row_bump:
  "stats_row (bump attr ann figure st) attr' ann' figure' =
     stats_row st attr' ann' figure' +
       (if attr' = attr \<and> ann' = ann \<and> figure' = figure then 1 else 0)"
  by (simp add: bump_def stats_row_def Let_def update_conv')

lemma tp_fn_anns_count:
  assumes "tp_fn_anns gold_ann an attr ids st = Inr st'" and "distinct ids"
  shows "stats_row st' attr' ann' figure' =
           stats_row st attr' ann' figure' +
             (if attr' = attr \<and> ann' \<in> set ids \<and> ann' \<noteq> gold_ann
              then (case map_of an ann' of
                      None \<Rightarrow> 0
                    | Some attrs \<Rightarrow>
                        if figure' = (if attr \<in> set attrs then TP else FN) then 1 else 0)
              else 0)"
  using assms
proof (induction ids arbitrary: st)
  case Nil
  then show ?case by simp
next
  case (Cons ann ids)
  show ?case
  proof (cases "ann = gold_ann")
    case True
    then show ?thesis using Cons by auto
  next
    case False
    then obtain attrs where a: "map_of an ann = Some attrs"
      and r: "tp_fn_anns gold_ann an attr ids
                (bump attr ann (if attr \<in> set attrs then TP else FN) st) = Inr st'"
      using Cons.prems(1) by (auto simp: dict_get_def split: option.splits)
    have d: "distinct ids" "ann \<notin> set ids" using Cons.prems(2) by auto
    show ?thesis
      using Cons.IH[OF r d(1)] a d(2) False
      by (auto simp: stats_row_bump split: option.splits)
  qed
qed

lemma tp_fn_attrs_count:
  assumes "tp_fn_attrs gold_ann an ids gold_attrs st = Inr st'" and "distinct ids"
  shows "stats_row st' attr' ann' figure' =
           stats_row st attr' ann' figure' +
             (if ann' \<in> set ids \<and> ann' \<noteq> gold_ann
              then (case map_of an ann' of
                      None \<Rightarrow> 0
                    | Some attrs \<Rightarrow>
                        if figure' = (if attr' \<in> set attrs then TP else FN)
                        then count_list gold_attrs attr' else 0)
              else 0)"
  using assms
proof (induction gold_attrs arbitrary: st)
  case Nil
  then show ?case by (simp split: option.splits)
next
  case (Cons attr gold_attrs)
  from Cons.prems(1) obtain st1 where 1: "tp_fn_anns gold_ann an attr ids st = Inr st1"
    and 2: "tp_fn_attrs gold_ann an ids gold_attrs st1 = Inr st'"
    by (auto split: sum.splits)
  show ?case
    using tp_fn_anns_count[OF 1 Cons.prems(2), of attr' ann' figure'] Cons.IH[OF 2 Cons.prems(2)]
    by (auto split: option.splits)
qed

lemma fp_attrs_count:
  "stats_row (fp_attrs ann gold_attrs attrs st) attr' ann' figure' =
     stats_row st attr' ann' figure' +
       (if ann' = ann \<and> figure' = FP \<and> attr' \<notin> set gold_attrs
        then count_list attrs attr' else 0)"
  unfolding fp_attrs_def
  by (induction attrs arbitrary: st) (auto simp: stats_row_bump)

lemma fp_anns_count:
  assumes "fp_anns sid gold_ann an gold_attrs ids st = Inr st'" and "distinct ids"
  shows "stats_row st' attr' ann' figure' =
           stats_row st attr' ann' figure' +
             (if ann' \<in> set ids \<and> ann' \<noteq> gold_ann \<and> figure' = FP \<and> attr' \<notin> set gold_attrs
              then (case map_of an ann' of None \<Rightarrow> 0 | Some attrs \<Rightarrow> count_list attrs attr')
              else 0)"
  using assms
proof (induction ids arbitrary: st)
  case Nil
  then show ?case by simp
next
  case (Cons ann ids)
  show ?case
  proof (cases "ann = gold_ann")
    case True
    then show ?thesis using Cons by auto
  next
    case False
    then obtain attrs where a: "map_of an ann = Some attrs"
      and r: "fp_anns sid gold_ann an gold_attrs ids (fp_attrs ann gold_attrs attrs st) = Inr st'"
      using Cons.prems(1) by (auto split: option.splits)
    have d: "distinct ids" "ann \<notin> set ids" using Cons.prems(2) by auto
    show ?thesis
      using Cons.IH[OF r d(1)] a d(2) False
      by (auto simp: fp_attrs_count split: option.splits)
  qed
qed

lemma eval_sen_count:
  assumes "eval_sen gold_ann ids sid s st = Inr st'" and "distinct ids"
    and "ann \<in> set ids" and "ann \<noteq> gold_ann"
  shows "stats_row st' attr ann figure =
           stats_row st attr ann figure + increments gold_ann ann attr figure s"
proof -
  from assms(1) obtain gold_attrs st1 where
    g: "map_of (annot s) gold_ann = Some gold_attrs" and
    1: "tp_fn_attrs gold_ann (annot s) ids gold_attrs st = Inr st1" and
    2: "fp_anns sid gold_ann (annot s) gold_attrs ids st1 = Inr st'"
    by (auto simp: eval_sen_def dict_get_def split: option.splits sum.splits)
  show ?thesis
    using tp_fn_attrs_count[OF 1 assms(2), of attr ann figure]
      fp_anns_count[OF 2 assms(2), of attr ann figure] g assms(3,4)
    by (cases figure) (auto simp: increments_def split: option.splits)
qed

lemma eval_sens_count:
  assumes "eval_sens gold_ann ids d st = Inr st'" and "distinct ids"
    and "ann \<in> set ids" and "ann \<noteq> gold_ann"
  shows "stats_row st' attr ann figure =
           stats_row st attr ann figure +
           sum_list (map (\<lambda>(sid, s). increments gold_ann ann attr figure s) d)"
  using assms(1)
proof (induction d arbitrary: st)
  case Nil
  then show ?case by simp
next
  case (Cons p d)
  obtain sid s where p: "p = (sid, s)" by (cases p)
  from Cons.prems obtain st1 where 1: "eval_sen gold_ann ids sid s st = Inr st1"
    and 2: "eval_sens gold_ann ids d st1 = Inr st'"
    unfolding p by (auto split: sum.splits)
  show ?case
    using eval_sen_count[OF 1 assms(2,3,4), of attr figure] Cons.IH[OF 2]
    by (simp add: p)
qed

subsection \<open>Vote synthesis\<close>

lemma min_names:
  "char_of (49::nat) = CHR ''1''" "char_of (50::nat) = CHR ''2''" "char_of (51::nat) = CHR ''3''"
  by code_simp+

lemma register_votes_fresh:
  assumes "map_of (word_to_id v) ''min1'' = None" "map_of (word_to_id v) ''min2'' = None"
    "map_of (word_to_id v) ''min3'' = None"
  shows "register_votes [1, 2, 3] v =
           Inr ([(1, len_vocab v), (2, len_vocab v + 1), (3, len_vocab v + 2)],
                \<lparr>word_to_id = word_to_id v @ [(''min1'', len_vocab v), (''min2'', len_vocab v + 1),
                                               (''min3'', len_vocab v + 2)],
                 id_to_word = id_to_word v @ [(len_vocab v, ''min1''), (len_vocab v + 1, ''min2''),
                                               (len_vocab v + 2, ''min3'')]\<rparr>)"
  using assms by (simp add: min_names get_id_def len_vocab_def map_add_def Let_def)

lemma counter_get_inc:
  "counter_get (counter_inc k c) k' = counter_get c k' + (if k' = k then 1 else 0)"
  by (simp add: counter_get_def counter_inc_def update_conv')

lemma counter_get_fold_inc:
  "counter_get (fold counter_inc attrs c) attr = counter_get c attr + count_list attrs attr"
  by (induction attrs arbitrary: c) (auto simp: counter_get_inc)

lemma distinct_counter_inc: "distinct (map fst c) \<Longrightarrow> distinct (map fst (counter_inc k c))"
  by (simp add: counter_inc_def distinct_update)

lemma distinct_fold_inc: "distinct (map fst c) \<Longrightarrow> distinct (map fst (fold counter_inc attrs c))"
  by (induction attrs arbitrary: c) (auto simp: distinct_counter_inc)

lemma count_attrs_votes:
  assumes "\<forall>p\<in>set ps. get_word (fst p) v = Inr (snd p)"
    and "count_attrs v an (map fst ps) c = Inr c'"
  shows "counter_get c' attr =
           counter_get c attr +
           sum_list (map (\<lambda>(ann, w). if w = ''gold'' then 0
                                else (case map_of an ann of
                                        None \<Rightarrow> 0 | Some attrs \<Rightarrow> count_list attrs attr)) ps) \<and>
         (distinct (map fst c) \<longrightarrow> distinct (map fst c'))"
  using assms
proof (induction ps arbitrary: c)
  case Nil
  then show ?case by simp
next
  case (Cons p ps)
  obtain ann w where p: "p = (ann, w)" by (cases p)
  have w: "get_word ann v = Inr w" using Cons.prems(1) p by simp
  have rest: "\<forall>p\<in>set ps. get_word (fst p) v = Inr (snd p)" using Cons.prems(1) by simp
  show ?case
  proof (cases "w = ''gold''")
    case True
    then have "count_attrs v an (map fst ps) c = Inr c'"
      using Cons.prems(2) p w by simp
    from Cons.IH[OF rest this] show ?thesis using p True by simp
  next
    case False
    then obtain attrs where a: "map_of an ann = Some attrs"
      and r: "count_attrs v an (map fst ps) (fold counter_inc attrs c) = Inr c'"
      using Cons.prems(2) p w by (auto simp: dict_get_def split: option.splits)
    from Cons.IH[OF rest r] show ?thesis
      using p False a by (simp add: counter_get_fold_inc distinct_fold_inc)
  qed
qed

lemma fold_add_to_vote_sets:
  "fold add_to_vote_sets c vs =
     map (\<lambda>(n, s). (n, s \<union> {attr. \<exists>count. (attr, count) \<in> set c \<and> n \<le> count})) vs"
proof (induction c arbitrary: vs)
  case Nil
  then show ?case by simp
next
  case (Cons ac c)
  have "fold add_to_vote_sets (ac # c) vs =
        map (\<lambda>(n, s). (n, s \<union> {attr. \<exists>count. (attr, count) \<in> set c \<and> n \<le> count}))
          (add_to_vote_sets ac vs)"
    by (simp add: Cons.IH)
  also have "\<dots> =
        map (\<lambda>(n, s). (n, s \<union> {attr. \<exists>count. (attr, count) \<in> set (ac # c) \<and> n \<le> count})) vs"
    unfolding add_to_vote_sets_def by (cases ac) (auto split: if_splits)
  finally show ?case .
qed

lemma quorum_set:
  assumes "distinct (map fst c)" and "0 < n"
  shows "{attr. \<exists>count. (attr, count) \<in> set c \<and> n \<le> count} = {attr. n \<le> counter_get c attr}"
proof -
  have "(\<exists>count. (attr, count) \<in> set c \<and> n \<le> count) = (n \<le> counter_get c attr)" for attr
  proof (cases "map_of c attr")
    case None
    then have "\<forall>count. (attr, count) \<notin> set c"
      by (metis map_of_SomeD not_None_eq weak_map_of_SomeI)
    then show ?thesis using None assms(2) by (simp add: counter_get_def)
  next
    case (Some k)
    then have "\<And>count. (attr, count) \<in> set c \<longleftrightarrow> count = k"
      using assms(1) by (metis map_of_is_SomeI map_of_SomeD option.inject)
    then show ?thesis using Some by (simp add: counter_get_def)
  qed
  then show ?thesis by simp
qed

lemma quorum_finite: "finite {attr. \<exists>count. (attr, count) \<in> set c \<and> (n::nat) \<le> count}"
proof -
  have "{attr. \<exists>count. (attr, count) \<in> set c \<and> n \<le> count} \<subseteq> fst ` set c"
    by force
  then show ?thesis by (rule finite_subset) simp
qed

lemma update_append: "k \<notin> fst ` set al \<Longrightarrow> AList.update k v al = al @ [(k, v)]"
  by (induction al) auto

lemma vote_sen_result:
  assumes w: "\<forall>p\<in>set (id_to_word anv). get_word (fst p) anv' = Inr (snd p)"
    and k: "\<forall>k\<in>fst ` set (annot s). k < n"
    and v: "vote_sen anv' (map fst (id_to_word anv)) [(1, n), (2, n + 1), (3, n + 2)] s = Inr s'"
  shows "\<exists>v1 v2 v3.
           s' = s\<lparr>annot := annot s @ [(n, v1), (n + 1, v2), (n + 2, v3)]\<rparr> \<and>
           is_quorum anv (annot s) 1 v1 \<and> is_quorum anv (annot s) 2 v2 \<and>
           is_quorum anv (annot s) 3 v3"
proof -
  from v obtain c where c: "count_attrs anv' (annot s) (map fst (id_to_word anv)) [] = Inr c"
    by (auto simp: vote_sen_def split: sum.splits)
  from count_attrs_votes[OF w c] have cv: "\<And>attr. counter_get c attr = votes anv (annot s) attr"
    and dc: "distinct (map fst c)"
    by (auto simp: votes_def counter_get_def)
  define q where "q = (\<lambda>m::nat. {attr. \<exists>count. (attr, count) \<in> set c \<and> m \<le> count})"
  have q: "finite (q m)" "0 < m \<Longrightarrow> q m = {attr. m \<le> votes anv (annot s) attr}" for m
    using quorum_finite[of c m] quorum_set[OF dc, of m] cv by (auto simp: q_def)
  have m: "make_vote_sets [(1, n), (2, n + 1), (3, n + 2)] c = [(1, q 1), (2, q 2), (3, q 3)]"
    by (simp add: make_vote_sets_def fold_add_to_vote_sets q_def)
  have f: "n \<notin> fst ` set (annot s)" "n + 1 \<notin> fst ` set (annot s)" "n + 2 \<notin> fst ` set (annot s)"
    using k by auto
  have "store_votes [(1, n), (2, n + 1), (3, n + 2)] [(1, q 1), (2, q 2), (3, q 3)] (annot s) =
          Inr (annot s @ [(n, sorted_list_of_set (q 1)), (n + 1, sorted_list_of_set (q 2)),
                          (n + 2, sorted_list_of_set (q 3))])"
    using f by (simp add: dict_get_def update_append)
  then have "s' = s\<lparr>annot := annot s @ [(n, sorted_list_of_set (q 1)),
                 (n + 1, sorted_list_of_set (q 2)), (n + 2, sorted_list_of_set (q 3))]\<rparr>"
    using v c m by (simp add: vote_sen_def)
  moreover have "is_quorum anv (annot s) m (sorted_list_of_set (q m))" if "0 < m" for m
    using q[of m] that by (simp add: is_quorum_def)
  ultimately show ?thesis by (metis zero_less_numeral zero_less_one)
qed

lemma vote_sens_all2:
  "vote_sens v ids va d = Inr d' \<Longrightarrow>
     list_all2 (\<lambda>p p'. fst p' = fst p \<and> vote_sen v ids va (snd p) = Inr (snd p')) d d'"
proof (induction d arbitrary: d')
  case Nil
  then show ?case by simp
next
  case (Cons p d)
  obtain sid s where p: "p = (sid, s)" by (cases p)
  from Cons.prems obtain s' rest where 1: "vote_sen v ids va s = Inr s'"
    and 2: "vote_sens v ids va d = Inr rest" and 3: "d' = (sid, s') # rest"
    unfolding p by (auto split: sum.splits)
  show ?case using 1 3 Cons.IH[OF 2] by (simp add: p)
qed

lemma wf_vocab_words:
  assumes "wf_vocab v" and "p \<in> set (id_to_word v)"
  shows "map_of (id_to_word v) (fst p) = Some (snd p)"
proof -
  have "map fst (id_to_word v) = map snd (word_to_id v)"
    using assms(1) by (simp add: wf_vocab_def case_prod_unfold comp_def)
  then have "distinct (map fst (id_to_word v))"
    using assms(1) by (simp add: wf_vocab_def)
  then show ?thesis using assms(2) by (cases p) simp
qed

subsection \<open>What the loader guarantees\<close>

lemma votes_alt: "votes v an attr = sum_list (map (vote_of an attr) (id_to_word v))"
proof -
  have "vote_of an attr =
          (\<lambda>(ann, w). if w = ''gold'' then 0
                      else (case map_of an ann of
                              None \<Rightarrow> 0 | Some attrs \<Rightarrow> count_list attrs attr))"
    by (rule ext) (simp add: vote_of_def case_prod_unfold)
  then show ?thesis by (simp add: votes_def)
qed

lemma wf_vocab_empty: "wf_vocab Vocabulary"
  by (simp add: wf_vocab_def Vocabulary_def)

lemma wf_vocab_keys: "wf_vocab v \<Longrightarrow> map fst (id_to_word v) = [0..<len_vocab v]"
  by (simp add: wf_vocab_def len_vocab_def case_prod_unfold comp_def)

lemma get_id_wf:
  assumes "wf_vocab v" and "get_id w True v = Inr (a, v')"
  shows "wf_vocab v' \<and> a < len_vocab v' \<and> get_word a v' = Inr w \<and>
         (v' = v \<or> (a = len_vocab v \<and> id_to_word v' = id_to_word v @ [(a, w)]))"
proof (cases "map_of (word_to_id v) w")
  case None
  then have n: "w \<notin> fst ` set (word_to_id v)" by (simp add: map_of_eq_None_iff)
  have v': "a = len_vocab v" "v' = \<lparr>word_to_id = word_to_id v @ [(w, a)],
                 id_to_word = id_to_word v @ [(a, w)]\<rparr>"
    using assms(2) None by (auto simp: get_id_def Let_def)
  have k: "map fst (id_to_word v) = [0..<len_vocab v]" by (rule wf_vocab_keys[OF assms(1)])
  then have "a \<notin> fst ` set (id_to_word v)" using v'(1)
    by (metis atLeastLessThan_iff less_irrefl list.set_map set_upt)
  then have "map_of (id_to_word v) a = None" by (simp add: map_of_eq_None_iff)
  then have "get_word a v' = Inr w"
    by (simp add: get_word_def dict_get_def v' map_add_def)
  moreover have "wf_vocab v'"
    using assms(1) n by (simp add: wf_vocab_def v' len_vocab_def)
  ultimately show ?thesis using v' by (simp add: len_vocab_def)
next
  case (Some i)
  then have v': "a = i" "v' = v" using assms(2) by (auto simp: get_id_def)
  have "(w, i) \<in> set (word_to_id v)" using Some by (rule map_of_SomeD)
  then have m: "(i, w) \<in> set (id_to_word v)"
    using assms(1) by (force simp: wf_vocab_def)
  have "distinct (map fst (id_to_word v))"
    using wf_vocab_keys[OF assms(1)] by simp
  then have "map_of (id_to_word v) i = Some w" using m by simp
  moreover have "i < len_vocab v"
    using m wf_vocab_keys[OF assms(1)]
    by (metis atLeastLessThan_iff fst_conv image_eqI list.set_map set_upt)
  ultimately show ?thesis using v' assms(1) by (simp add: get_word_def dict_get_def)
qed

lemma votes_new_annotator:
  assumes "\<forall>k\<in>fst ` set an. k < n"
  shows "sum_list (map (vote_of an attr) (ps @ [(n, w)])) = sum_list (map (vote_of an attr) ps)"
proof -
  have "n \<notin> fst ` set an" using assms by auto
  then have "map_of an n = None" by (simp add: map_of_eq_None_iff)
  then show ?thesis by (simp add: vote_of_def)
qed

lemma sen_ok_grow:
  assumes "sen_ok v s" and "wf_vocab v" and "get_id w True v = Inr (a, v')"
  shows "sen_ok v' s"
proof -
  from get_id_wf[OF assms(2,3)]
  have c: "v' = v \<or> (a = len_vocab v \<and> id_to_word v' = id_to_word v @ [(a, w)])"
    and l: "a < len_vocab v'" by auto
  from c show ?thesis
  proof
    assume "v' = v" then show ?thesis using assms(1) by simp
  next
    assume n: "a = len_vocab v \<and> id_to_word v' = id_to_word v @ [(a, w)]"
    have k: "\<forall>k\<in>fst ` set (annot s). k < len_vocab v" using assms(1) by (simp add: sen_ok_def)
    have "votes v' (annot s) attr = votes v (annot s) attr" for attr
      using votes_new_annotator[OF k] n by (simp add: votes_alt)
    moreover have "\<forall>k\<in>fst ` set (annot s). k < len_vocab v'"
      using k l n by auto
    ultimately show ?thesis using assms(1) by (simp add: sen_ok_def)
  qed
qed

lemma vote_of_other:
  "fst p \<noteq> a \<Longrightarrow> vote_of (an @ [(a, l)]) attr p = vote_of an attr p"
  by (simp add: vote_of_def map_add_def split: option.splits)

lemma votes_annotate:
  assumes d: "distinct (map fst ps)" and m: "(a, w) \<in> set ps" and n: "map_of an a = None"
  shows "sum_list (map (vote_of (an @ [(a, l)]) attr) ps) =
           sum_list (map (vote_of an attr) ps) + (if w = ''gold'' then 0 else count_list l attr)"
  using d m
proof (induction ps)
  case Nil
  then show ?case by simp
next
  case (Cons p ps)
  show ?case
  proof (cases "p = (a, w)")
    case True
    then have "a \<notin> fst ` set ps" using Cons.prems(1) by auto
    then have "\<forall>q\<in>set ps. fst q \<noteq> a" by auto
    then have "sum_list (map (vote_of (an @ [(a, l)]) attr) ps) =
               sum_list (map (vote_of an attr) ps)"
      by (intro arg_cong[where f = sum_list] map_cong) (auto simp: vote_of_other)
    moreover have "vote_of (an @ [(a, l)]) attr p = (if w = ''gold'' then 0 else count_list l attr)"
      "vote_of an attr p = 0"
      using True n by (simp_all add: vote_of_def map_add_def)
    ultimately show ?thesis by simp
  next
    case False
    then have i: "(a, w) \<in> set ps" using Cons.prems(2) by simp
    then have "fst p \<noteq> a" using Cons.prems(1) by (cases p) force
    then show ?thesis using Cons.IH i Cons.prems(1) by (simp add: vote_of_other)
  qed
qed

lemma counter_touch_get: "counter_get (counter_touch k c) k' = counter_get c k'"
  by (auto simp: counter_touch_def counter_get_def update_conv' in_keys_iff
      split: option.splits)

lemma counter_touch_keys: "fst ` set (counter_touch k c) = insert k (fst ` set c)"
  by (auto simp: counter_touch_def dom_update)

lemma fold_touch_get: "counter_get (fold counter_touch ks c) k' = counter_get c k'"
  by (induction ks arbitrary: c) (simp_all add: counter_touch_get)

lemma fold_touch_keys: "fst ` set (fold counter_touch ks c) = set ks \<union> fst ` set c"
  by (induction ks arbitrary: c) (auto simp: counter_touch_keys)

lemma counter_inc_keys: "fst ` set (counter_inc k c) = insert k (fst ` set c)"
  by (auto simp: counter_inc_def dom_update)

lemma fold_inc_keys: "fst ` set (fold counter_inc ks c) = set ks \<union> fst ` set c"
  by (induction ks arbitrary: c) (auto simp: counter_inc_keys)

lemma in_set_updateD: "p \<in> set (AList.update k v al) \<Longrightarrow> p = (k, v) \<or> p \<in> set al"
  by (induction al) (auto split: if_splits)

lemma vote_of_empty: "vote_of [] attr p = 0"
  by (simp add: vote_of_def)

lemma votes_empty: "votes v [] attr = 0"
proof -
  have h: "sum_list (map (vote_of [] attr) ps) = 0" for ps
    by (induction ps) (simp_all add: vote_of_empty)
  show ?thesis unfolding votes_alt by (rule h)
qed

lemma sen_ok_annotate:
  assumes ok: "sen_ok v s" and wf: "wf_vocab v" and a: "a < len_vocab v"
    and w: "get_word a v = Inr w" and n: "a \<notin> fst ` set (annot s)" and l: "sorted l"
    and st: "stats = (if w \<noteq> ''gold'' then fold counter_inc l (attr_stats s)
                      else fold counter_touch l (attr_stats s))"
  shows "sen_ok v (s\<lparr>annot := AList.update a l (annot s), attr_stats := stats\<rparr>)"
proof -
  have an: "AList.update a l (annot s) = annot s @ [(a, l)]"
    using n by (rule update_append)
  have d: "distinct (map fst (id_to_word v))"
    using wf_vocab_keys[OF wf] by simp
  have m: "(a, w) \<in> set (id_to_word v)"
    using w by (auto simp: get_word_def dict_get_def split: option.splits dest: map_of_SomeD)
  have none: "map_of (annot s) a = None"
    using n by (simp add: map_of_eq_None_iff)
  have v: "votes v (annot s @ [(a, l)]) attr =
             votes v (annot s) attr + (if w = ''gold'' then 0 else count_list l attr)" for attr
    using votes_annotate[OF d m none] by (simp add: votes_alt)
  have c: "counter_get stats attr =
             counter_get (attr_stats s) attr + (if w = ''gold'' then 0 else count_list l attr)"
    for attr
    by (simp add: st counter_get_fold_inc fold_touch_get)
  have k: "fst ` set stats = set l \<union> fst ` set (attr_stats s)"
    by (simp add: st fold_inc_keys fold_touch_keys)
  show ?thesis
    using ok a l v c k unfolding sen_ok_def an by auto
qed

lemma annotate_sen_ok:
  assumes "loaded_ok st" and "a < len_vocab (ls_annotator_vocab st)"
    and "annotate_sen set_iter a rs st = Done st'"
  shows "loaded_ok st'"
proof -
  let ?v = "ls_annotator_vocab st"
  from assms(3) obtain s where s: "map_of (ls_data st) (rs_id rs) = Some s"
    by (auto simp: annotate_sen_def split: option.splits)
  from assms(3) s have n: "a \<notin> fst ` set (annot s)"
    by (auto simp: annotate_sen_def split: if_splits)
  obtain ids av where i: "intern_attrs (set_iter (attributes rs)) (ls_attr_vocab st) = Inr (ids, av)"
    using intern_attrs_ok by blast
  from assms(3) s n i obtain w where w: "get_word a ?v = Inr w"
    by (auto simp: annotate_sen_def Let_def split: sum.splits)
  have st': "st' = st\<lparr>ls_data := AList.update (rs_id rs)
                 (s\<lparr>annot := AList.update a (sort ids) (annot s),
                    attr_stats := (if w \<noteq> ''gold''
                                   then fold counter_inc (sort ids) (attr_stats s)
                                   else fold counter_touch (sort ids) (attr_stats s))\<rparr>)
                 (ls_data st), ls_attr_vocab := av\<rparr>"
    using assms(3) s n i w by (auto simp: annotate_sen_def Let_def)
  have wf: "wf_vocab ?v" using assms(1) by (simp add: loaded_ok_def)
  have "(rs_id rs, s) \<in> set (ls_data st)" using s by (rule map_of_SomeD)
  then have ok: "sen_ok ?v s" using assms(1) by (force simp: loaded_ok_def)
  have new: "sen_ok ?v (s\<lparr>annot := AList.update a (sort ids) (annot s),
                    attr_stats := (if w \<noteq> ''gold''
                                   then fold counter_inc (sort ids) (attr_stats s)
                                   else fold counter_touch (sort ids) (attr_stats s))\<rparr>)"
    by (rule sen_ok_annotate[OF ok wf assms(2) w n]) simp_all
  show ?thesis
    unfolding loaded_ok_def st'
    using wf new assms(1) by (fastforce simp: loaded_ok_def dest!: in_set_updateD)
qed

lemma ensure_sen_ok:
  assumes "loaded_ok st" and "ensure_sen rs st = Done st'"
  shows "loaded_ok st' \<and> ls_annotator_vocab st' = ls_annotator_vocab st"
proof (cases "map_of (ls_data st) (rs_id rs)")
  case None
  have "sen_ok (ls_annotator_vocab st)
          \<lparr>sen_id = rs_id rs, sen_text = rs_text rs, annot = [], attr_stats = [],
           full_agreement = None\<rparr>"
    by (simp add: sen_ok_def votes_empty counter_get_def)
  then show ?thesis
    using assms None by (fastforce simp: ensure_sen_def loaded_ok_def dest!: in_set_updateD)
next
  case (Some s)
  then show ?thesis using assms by (auto simp: ensure_sen_def split: if_splits)
qed

lemma merge_sen_ok:
  assumes "loaded_ok st" and "a < len_vocab (ls_annotator_vocab st)"
    and "merge_sen set_iter a rs st = Done st'"
  shows "loaded_ok st'"
proof -
  from assms(3) obtain st0 where 0: "ensure_sen rs st = Done st0"
    and 1: "annotate_sen set_iter a rs st0 = Done st'"
    by (auto simp: merge_sen_def split: outcome.splits)
  from ensure_sen_ok[OF assms(1) 0] assms(2) annotate_sen_ok[OF _ _ 1] show ?thesis by simp
qed

lemma load_rows_ok:
  assumes "loaded_ok st" and "a < len_vocab (ls_annotator_vocab st)"
    and "load_rows set_iter a i rows st = Done st'"
  shows "loaded_ok st'"
  using assms
proof (induction rows arbitrary: st i)
  case Nil
  then show ?case by simp
next
  case (Cons r rows)
  show ?case
  proof (cases "gen_row i r")
    case (Inl e)
    then show ?thesis using Cons.prems by simp
  next
    case (Inr y)
    show ?thesis
    proof (cases y)
      case None
      then show ?thesis using Inr Cons by simp
    next
      case (Some rs)
      then obtain st1 where m: "merge_sen set_iter a rs st = Done st1"
        and l: "load_rows set_iter a (Suc i) rows st1 = Done st'"
        using Cons.prems(3) Inr by (auto split: outcome.splits)
      have 1: "loaded_ok st1" by (rule merge_sen_ok[OF Cons.prems(1,2) m])
      have "ls_annotator_vocab st1 = ls_annotator_vocab st"
        using merge_sen_annotator_vocab[of set_iter a rs st] m by (simp add: outcome_state_def)
      then have 2: "a < len_vocab (ls_annotator_vocab st1)" using Cons.prems(2) by simp
      from Cons.IH[OF 1 2 l] show ?thesis .
    qed
  qed
qed

lemma load_file_ok:
  assumes "loaded_ok st" and "load_file set_iter f st = Done st'"
  shows "loaded_ok st'"
proof -
  obtain a anv where g: "get_id (file_annotator f) True (ls_annotator_vocab st) = Inr (a, anv)"
    using get_id_new by blast
  have wf: "wf_vocab (ls_annotator_vocab st)" using assms(1) by (simp add: loaded_ok_def)
  note gw = get_id_wf[OF wf g]
  have "loaded_ok (st\<lparr>ls_annotator_vocab := anv\<rparr>)"
    using assms(1) gw sen_ok_grow[OF _ wf g] by (auto simp: loaded_ok_def)
  moreover have "a < len_vocab (ls_annotator_vocab (st\<lparr>ls_annotator_vocab := anv\<rparr>))"
    using gw by simp
  moreover have "load_rows set_iter a 0 (file_rows f) (st\<lparr>ls_annotator_vocab := anv\<rparr>) = Done st'"
    using assms(2) g by (simp add: load_file_def)
  ultimately show ?thesis by (rule load_rows_ok)
qed

lemma load_files_ok:
  "loaded_ok st \<Longrightarrow> load_files set_iter fs st = Done st' \<Longrightarrow> loaded_ok st'"
proof (induction fs arbitrary: st)
  case Nil
  then show ?case by simp
next
  case (Cons f fs)
  from Cons.prems(2) obtain st1 where 1: "load_file set_iter f st = Done st1"
    and 2: "load_files set_iter fs st1 = Done st'"
    by (auto split: outcome.splits)
  from Cons.IH[OF load_file_ok[OF Cons.prems(1) 1] 2] show ?case .
qed

lemma load_data_ok:
  assumes "load_data set_iter fs = Done st"
  shows "loaded_ok st"
proof -
  have "loaded_ok \<lparr>ls_data = [], ls_attr_vocab = Vocabulary, ls_annotator_vocab = Vocabulary\<rparr>"
    by (simp add: loaded_ok_def wf_vocab_empty)
  then show ?thesis using assms unfolding load_data_def by (rule load_files_ok)
qed

lemma count_list_distinct: "distinct xs \<Longrightarrow> count_list xs x = (if x \<in> set xs then 1 else 0)"
  by (induction xs) auto

lemma votes_distinct:
  assumes "\<forall>l\<in>snd ` set an. distinct l"
  shows "votes v an attr = n_selected v an attr"
proof -
  have "vote_of an attr p =
          (if (case p of (ann, w) \<Rightarrow> w \<noteq> ''gold'' \<and>
                 (case map_of an ann of None \<Rightarrow> False | Some attrs \<Rightarrow> attr \<in> set attrs))
           then 1 else 0)" for p
  proof (cases "map_of an (fst p)")
    case None
    then show ?thesis by (simp add: vote_of_def case_prod_unfold)
  next
    case (Some attrs)
    then have "(fst p, attrs) \<in> set an" by (rule map_of_SomeD)
    then have "distinct attrs" using assms by force
    then show ?thesis using Some by (simp add: vote_of_def case_prod_unfold count_list_distinct)
  qed
  then have "sum_list (map (vote_of an attr) ps) =
        length (filter (\<lambda>(ann, w). w \<noteq> ''gold'' \<and>
                 (case map_of an ann of None \<Rightarrow> False | Some attrs \<Rightarrow> attr \<in> set attrs)) ps)" for ps
    by (induction ps) auto
  then show ?thesis by (simp add: votes_alt n_selected_def)
qed

text \<open>What the loader guarantees for every record.\<close>

lemma load_data_attr_stats:
  assumes "load_data set_iter fs = Done st" and "(sid, s) \<in> set (ls_data st)"
  shows "(\<forall>l\<in>snd ` set (annot s). sorted l) \<and>
         counter_get (attr_stats s) attr = votes (ls_annotator_vocab st) (annot s) attr \<and>
         ((\<forall>l\<in>snd ` set (annot s). distinct l) \<longrightarrow>
            counter_get (attr_stats s) attr = n_selected (ls_annotator_vocab st) (annot s) attr) \<and>
         (attr \<in> fst ` set (attr_stats s) \<longleftrightarrow> (\<exists>l\<in>snd ` set (annot s). attr \<in> set l))"
proof -
  have "sen_ok (ls_annotator_vocab st) s"
    using load_data_ok[OF assms(1)] assms(2) by (force simp: loaded_ok_def)
  then show ?thesis
    using votes_distinct[of "annot s" "ls_annotator_vocab st" attr]
    by (auto simp: sen_ok_def)
qed

lemma quorum_nested:
  "is_quorum v an n xs \<Longrightarrow> is_quorum v an m ys \<Longrightarrow> n \<le> m \<Longrightarrow> set ys \<subseteq> set xs"
  by (auto simp: is_quorum_def)

lemma count_list_pos: "0 < count_list xs x \<longleftrightarrow> x \<in> set xs"
  by (induction xs) auto

lemma quorum_one_union:
  assumes "is_quorum v an 1 xs"
  shows "set xs = {attr. \<exists>p\<in>set (id_to_word v). snd p \<noteq> ''gold'' \<and>
                      (\<exists>attrs. map_of an (fst p) = Some attrs \<and> attr \<in> set attrs)}"
proof -
  have "0 < vote_of an attr p \<longleftrightarrow>
          snd p \<noteq> ''gold'' \<and> (\<exists>attrs. map_of an (fst p) = Some attrs \<and> attr \<in> set attrs)"
    for attr p
    by (auto simp: vote_of_def count_list_pos split: option.splits)
  then have "1 \<le> sum_list (map (vote_of an attr) ps) \<longleftrightarrow>
          (\<exists>p\<in>set ps. snd p \<noteq> ''gold'' \<and>
             (\<exists>attrs. map_of an (fst p) = Some attrs \<and> attr \<in> set attrs))" for attr ps
    by (induction ps) (auto simp: Suc_le_eq)
  then show ?thesis using assms by (auto simp: is_quorum_def votes_alt)
qed

subsection \<open>The counts on lists without repeated ids\<close>

lemma increments_distinct:
  assumes "\<forall>l\<in>snd ` set (annot s). distinct l"
  shows "increments gold_ann ann attr figure s = expected gold_ann ann attr figure s"
proof (cases "map_of (annot s) gold_ann")
  case None
  then show ?thesis by (simp add: increments_def expected_def)
next
  case g: (Some gold_attrs)
  show ?thesis
  proof (cases "map_of (annot s) ann")
    case None
    then show ?thesis using g by (simp add: increments_def expected_def)
  next
    case a: (Some attrs)
    have "(gold_ann, gold_attrs) \<in> set (annot s)" "(ann, attrs) \<in> set (annot s)"
      using g a by (auto dest: map_of_SomeD)
    then have "distinct gold_attrs" "distinct attrs"
      using assms by force+
    then show ?thesis
      using g a by (cases figure) (simp_all add: increments_def expected_def count_list_distinct)
  qed
qed

text \<open>
  When \<open>eval_against_gold\<close> returns, the count of every figure for every
  attribute other than the row \<open>total\<close> and every annotator other than gold is
  the number of times the loops reached the increment; when no list holds an id
  twice, it is the sum over the sentences of what the claim lets a sentence add.
\<close>

lemma eval_against_gold_increments:
  assumes "eval_against_gold d av anv = Inr (st, av')"
    and "distinct (map fst (id_to_word anv))"
    and "map_of (word_to_id anv) ''gold'' = Some gold_ann"
    and "ann \<in> fst ` set (id_to_word anv)" and "ann \<noteq> gold_ann"
    and "get_id ''total'' True av = Inr (total_id, av')" and "attr \<noteq> total_id"
  shows "stats_row st attr ann figure =
           sum_list (map (\<lambda>(sid, s). increments gold_ann ann attr figure s) d)"
proof -
  have g: "get_id ''gold'' False anv = Inr (gold_ann, anv)"
    using assms(3) by (simp add: get_id_def)
  from assms(1) obtain st0 where
    e: "eval_sens gold_ann (map fst (id_to_word anv)) d [] = Inr st0" and
    s: "st = AList.update total_id (total_row gold_ann (map fst (id_to_word anv)) st0) st0"
    using g assms(6) by (auto simp: eval_against_gold_def Let_def split: sum.splits)
  have "stats_row st attr = stats_row st0 attr"
    using assms(7) by (simp add: s stats_row_def update_conv')
  moreover have "stats_row [] attr ann figure = 0"
    by (simp add: stats_row_def)
  ultimately show ?thesis
    using eval_sens_count[OF e assms(2) _ assms(5), of attr figure] assms(4) by simp
qed

lemma eval_against_gold_distinct:
  assumes "eval_against_gold d av anv = Inr (st, av')"
    and "distinct (map fst (id_to_word anv))"
    and "map_of (word_to_id anv) ''gold'' = Some gold_ann"
    and "ann \<in> fst ` set (id_to_word anv)" and "ann \<noteq> gold_ann"
    and "get_id ''total'' True av = Inr (total_id, av')" and "attr \<noteq> total_id"
    and "\<forall>p\<in>set d. \<forall>l\<in>snd ` set (annot (snd p)). distinct l"
  shows "stats_row st attr ann figure =
           sum_list (map (\<lambda>(sid, s). expected gold_ann ann attr figure s) d)"
proof -
  have "sum_list (map (\<lambda>p. increments gold_ann ann attr figure (snd p)) d) =
        sum_list (map (\<lambda>p. expected gold_ann ann attr figure (snd p)) d)"
    using assms(8)
    by (intro arg_cong[where f = sum_list] map_cong refl) (simp add: increments_distinct)
  then show ?thesis
    using eval_against_gold_increments[OF assms(1-7), of figure]
    by (simp add: case_prod_unfold)
qed

text \<open>The example of the claim: on two sentences gold and \<open>ann1\<close> pick attribute 0
  and \<open>ann2\<close> picks attribute 1.  \<open>ann1\<close> gets \<open>TP\<close> for attribute 0 on each
  sentence and neither \<open>FN\<close> nor \<open>FP\<close>, \<open>ann2\<close> gets \<open>FN\<close> for attribute 0 and
  \<open>FP\<close> for attribute 1 on each sentence.\<close>

lemma gold_example_counts:
  "\<exists>st av'. eval_against_gold gold_example gold_example_attrs gold_example_annotators =
               Inr (st, av') \<and>
     stats_row st 0 1 TP = 2 \<and> stats_row st 0 1 FN = 0 \<and> stats_row st 0 1 FP = 0 \<and>
     stats_row st 1 1 FP = 0 \<and>
     stats_row st 0 2 TP = 0 \<and> stats_row st 0 2 FN = 2 \<and> stats_row st 1 2 FP = 2"
proof -
  have "case eval_against_gold gold_example gold_example_attrs gold_example_annotators of
          Inl e \<Rightarrow> False
        | Inr (st, av') \<Rightarrow>
            av' = vocab_of [''DachneigungMax'', ''GebaeudeHoeheMax'', ''total'']"
    by code_simp
  then obtain st where e:
    "eval_against_gold gold_example gold_example_attrs gold_example_annotators =
       Inr (st, vocab_of [''DachneigungMax'', ''GebaeudeHoeheMax'', ''total''])"
    by (auto split: sum.splits)
  have d: "distinct (map fst (id_to_word gold_example_annotators))"
    by code_simp
  have g: "map_of (word_to_id gold_example_annotators) ''gold'' = Some 0"
    by code_simp
  have a1: "1 \<in> fst ` set (id_to_word gold_example_annotators)" "(1::nat) \<noteq> 0"
    by code_simp+
  have a2: "2 \<in> fst ` set (id_to_word gold_example_annotators)" "(2::nat) \<noteq> 0"
    by code_simp+
  have t: "get_id ''total'' True gold_example_attrs =
             Inr (2, vocab_of [''DachneigungMax'', ''GebaeudeHoeheMax'', ''total''])"
    by code_simp
  have n: "(0::nat) \<noteq> 2" "(1::nat) \<noteq> 2"
    by simp_all
  have l: "\<forall>p\<in>set gold_example. \<forall>l\<in>snd ` set (annot (snd p)). distinct l"
    by code_simp
  note c1 = eval_against_gold_distinct[OF e d g a1 t _ l]
  note c2 = eval_against_gold_distinct[OF e d g a2 t _ l]
  have "sum_list (map (\<lambda>(sid, s). expected 0 1 0 TP s) gold_example) = 2"
       "sum_list (map (\<lambda>(sid, s). expected 0 1 0 FN s) gold_example) = 0"
       "sum_list (map (\<lambda>(sid, s). expected 0 1 0 FP s) gold_example) = 0"
       "sum_list (map (\<lambda>(sid, s). expected 0 1 1 FP s) gold_example) = 0"
       "sum_list (map (\<lambda>(sid, s). expected 0 2 0 TP s) gold_example) = 0"
       "sum_list (map (\<lambda>(sid, s). expected 0 2 0 FN s) gold_example) = 2"
       "sum_list (map (\<lambda>(sid, s). expected 0 2 1 FP s) gold_example) = 2"
    by code_simp+
  then show ?thesis
    using e c1[OF n(1)] c1[OF n(2)] c2[OF n(1)] c2[OF n(2)] by simp
qed

subsection \<open>The input of \<open>add_votes\<close>\<close>

text \<open>The annotator vocabulary that the loader returns has the ids
  \<open>0, 1, ...\<close>, and every annotation in the data that \<open>main\<close> hands to
  \<open>add_votes\<close> belongs to one of them.\<close>

lemma load_data_known:
  assumes "load_data set_iter fs = Done st"
  shows "wf_vocab (ls_annotator_vocab st) \<and>
         known_annotators (ls_annotator_vocab st) (ls_data st) \<and>
         known_annotators (ls_annotator_vocab st) (remove_empty (print_data (ls_data st)))"
proof -
  have ok: "loaded_ok st" using assms by (rule load_data_ok)
  then have k: "\<forall>p\<in>set (ls_data st). \<forall>k\<in>fst ` set (annot (snd p)).
                  k < len_vocab (ls_annotator_vocab st)"
    by (simp add: loaded_ok_def sen_ok_def)
  have "known_annotators (ls_annotator_vocab st) (ls_data st)"
    using k by (fastforce simp: known_annotators_def list_all_iff)
  moreover have "known_annotators (ls_annotator_vocab st) (remove_empty (print_data (ls_data st)))"
    using k by (fastforce simp: known_annotators_def list_all_iff remove_empty_def print_data_def)
  ultimately show ?thesis using ok by (simp add: loaded_ok_def)
qed

subsection \<open>Claims\<close>

text \<open>
  C5.  A stored annotation is not always duplicate-free: \<open>set\<close> removes
  duplicates among the raw labels, before \<open>preprocess_attr\<close> maps
  \<open>BBDachneigungMax\<close> to \<open>DachneigungMax\<close>.  For a row with both labels the
  loader stores the list \<open>[0, 0]\<close>, whatever the iteration order of the set.
\<close>

theorem load_data_stores_alias_twice:
  assumes "set (set_iter [''BBDachneigungMax'', ''DachneigungMax'']) =
             {''BBDachneigungMax'', ''DachneigungMax''}"
    and "distinct (set_iter [''BBDachneigungMax'', ''DachneigungMax''])"
  shows "\<exists>st s. load_data set_iter [sheet ''ann1'' [alias_row]] = Done st \<and>
           map_of (ls_data st) ''s1'' = Some s \<and>
           map_of (annot s) 0 = Some [0, 0] \<and> \<not> distinct [0, 0 :: nat]"
  using load_alias[of set_iter, OF assms] by (simp add: alias_state_def mk_sen_def)

theorem load_data_stores_alias_twice_witness:
  "\<exists>st s. load_data remdups [sheet ''ann1'' [alias_row]] = Done st \<and>
           map_of (ls_data st) ''s1'' = Some s \<and> map_of (annot s) 0 = Some [0, 0]"
  using load_data_stores_alias_twice[of remdups] by simp

text \<open>
  C6.  \<open>attr_stats\<close> does not always hold the number of annotators: for the row
  with both \<open>BBDachneigungMax\<close> and \<open>DachneigungMax\<close> the one annotator \<open>ann1\<close>
  is counted twice for attribute 0.
\<close>

theorem load_data_counts_alias_twice:
  assumes "set (set_iter [''BBDachneigungMax'', ''DachneigungMax'']) =
             {''BBDachneigungMax'', ''DachneigungMax''}"
    and "distinct (set_iter [''BBDachneigungMax'', ''DachneigungMax''])"
  shows "\<exists>st s. load_data set_iter [sheet ''ann1'' [alias_row]] = Done st \<and>
           map_of (ls_data st) ''s1'' = Some s \<and>
           counter_get (attr_stats s) 0 = 2 \<and>
           n_selected (ls_annotator_vocab st) (annot s) 0 = 1"
  using load_alias[of set_iter, OF assms]
  by (simp add: alias_state_def mk_sen_def counter_get_def n_selected_def vocab_of_def)

theorem load_data_counts_alias_twice_witness:
  "\<exists>st s. load_data remdups [sheet ''ann1'' [alias_row]] = Done st \<and>
           map_of (ls_data st) ''s1'' = Some s \<and>
           counter_get (attr_stats s) 0 = 2 \<and>
           n_selected (ls_annotator_vocab st) (annot s) 0 = 1"
  using load_data_counts_alias_twice[of remdups] by simp

text \<open>
  C1.  On the data that the loader returns for that row, \<open>add_votes\<close> puts
  attribute 0 into the set of \<open>min2\<close> (annotator id 2) although a single
  annotator selected it: the quorum counts the occurrences in the lists.
\<close>

theorem add_votes_counts_alias_twice:
  assumes "set (set_iter [''BBDachneigungMax'', ''DachneigungMax'']) =
             {''BBDachneigungMax'', ''DachneigungMax''}"
    and "distinct (set_iter [''BBDachneigungMax'', ''DachneigungMax''])"
  shows "\<exists>st. load_data set_iter [sheet ''ann1'' [alias_row]] = Done st \<and>
           add_votes (ls_data st) (ls_attr_vocab st) (ls_annotator_vocab st) =
             Inr ([(''s1'', mk_sen ''s1'' [(0, [0, 0]), (1, [0]), (2, [0]), (3, [])] [(0, 2)])],
                  vocab_of [''ann1'', ''min1'', ''min2'', ''min3'']) \<and>
           n_selected (ls_annotator_vocab st) [(0, [0, 0])] 0 = 1"
proof -
  have "add_votes (ls_data alias_state) (ls_attr_vocab alias_state)
          (ls_annotator_vocab alias_state) =
        Inr ([(''s1'', mk_sen ''s1'' [(0, [0, 0]), (1, [0]), (2, [0]), (3, [])] [(0, 2)])],
             vocab_of [''ann1'', ''min1'', ''min2'', ''min3''])"
    by code_simp
  moreover have "n_selected (ls_annotator_vocab alias_state) [(0, [0, 0])] 0 = 1"
    by code_simp
  ultimately show ?thesis
    using load_alias[of set_iter, OF assms] by simp
qed

theorem add_votes_counts_alias_twice_witness:
  "\<exists>st. load_data remdups [sheet ''ann1'' [alias_row]] = Done st \<and>
           add_votes (ls_data st) (ls_attr_vocab st) (ls_annotator_vocab st) =
             Inr ([(''s1'', mk_sen ''s1'' [(0, [0, 0]), (1, [0]), (2, [0]), (3, [])] [(0, 2)])],
                  vocab_of [''ann1'', ''min1'', ''min2'', ''min3'']) \<and>
           n_selected (ls_annotator_vocab st) [(0, [0, 0])] 0 = 1"
  using add_votes_counts_alias_twice[of remdups] by simp

text \<open>
  C4.  The average of the inter-annotator kappas (line 179) divides by the length
  of the list without the guard that the gold average has: a run with a single
  annotator, and a run with gold and one annotator, end in \<open>ZeroDivisionError\<close>
  as soon as there is one attribute.
\<close>

theorem main_no_inter_pair_raises:
  assumes "set_iter [''DachneigungMax''] = [''DachneigungMax'']"
  shows "reports (main cohen set_iter [sheet ''ann1'' [plain_row]]) = Inl ZeroDivisionError \<and>
         reports (main cohen set_iter [sheet ''gold'' [plain_row], sheet ''ann1'' [plain_row]]) =
           Inl ZeroDivisionError"
  by (simp add: main_def load_plain1[of set_iter, OF assms] load_plain2[of set_iter, OF assms]
      IGNORE_EMPTY_def measure_plain1 measure_plain2)

theorem main_no_inter_pair_raises_witness:
  "reports (main (\<lambda>v1 v2. Float 0) remdups [sheet ''ann1'' [plain_row]]) = Inl ZeroDivisionError \<and>
   reports (main (\<lambda>v1 v2. Float 0) remdups
              [sheet ''gold'' [plain_row], sheet ''ann1'' [plain_row]]) = Inl ZeroDivisionError"
  using main_no_inter_pair_raises[of remdups "\<lambda>v1 v2. Float 0"] by simp

text \<open>
  C7.  \<open>eval_against_gold\<close> reads the annotation of every annotator (line 66) for
  each attribute of gold before it checks that the annotation exists (line 75).
  When \<open>ann1\<close> (id 1) has not annotated sentence \<open>s1\<close> and gold selected
  attribute 0 there, it ends in \<open>KeyError: 1\<close>; \<open>measure_agreement\<close>, and
  \<open>eval_against_gold\<close> when gold selected nothing, raise the \<open>ValueError\<close> that
  names annotator and sentence.
\<close>

theorem eval_against_gold_missing_annotation:
  "eval_against_gold (gap_data [0]) (vocab_of [''DachneigungMax'']) (vocab_of [''gold'', ''ann1''])
     = Inl (KeyError (IntKey 1)) \<and>
   eval_against_gold (gap_data []) (vocab_of [''DachneigungMax'']) (vocab_of [''gold'', ''ann1''])
     = Inl (ValueError 1 ''s1'') \<and>
   measure_agreement cohen (gap_data [0]) (vocab_of [''DachneigungMax''])
       (vocab_of [''gold'', ''ann1''])
     = Inl (ValueError 1 ''s1'')"
proof -
  have a: "case eval_against_gold (gap_data [0]) (vocab_of [''DachneigungMax''])
               (vocab_of [''gold'', ''ann1'']) of
          Inl e \<Rightarrow> e = KeyError (IntKey 1) | Inr y \<Rightarrow> False"
    by code_simp
  have b: "case eval_against_gold (gap_data []) (vocab_of [''DachneigungMax''])
               (vocab_of [''gold'', ''ann1'']) of
          Inl e \<Rightarrow> e = ValueError 1 ''s1'' | Inr y \<Rightarrow> False"
    by code_simp
  have c: "measure_agreement cohen (gap_data [0]) (vocab_of [''DachneigungMax''])
       (vocab_of [''gold'', ''ann1'']) = Inl (ValueError 1 ''s1'')"
    by code_simp
  show ?thesis
    using is_error[OF a] is_error[OF b] c by simp
qed

theorem eval_against_gold_missing_annotation_witness:
  "eval_against_gold (gap_data [0]) (vocab_of [''DachneigungMax'']) (vocab_of [''gold'', ''ann1''])
     \<noteq> Inl (ValueError 1 ''s1'')"
  using eval_against_gold_missing_annotation[of "\<lambda>v1 v2. Float 0"] by simp




text \<open>
  C8.  A row whose sentence already has an annotation of the file's annotator, or
  whose text differs from the stored text, raises \<open>AssertionError\<close> and leaves the
  state as it was when the row was reached; hence a file that was loaded and has a
  data row fails when it is loaded again, with nothing changed.  What rows of the
  failing file did before the failing row stays: at the failure every record still
  has its id, its text and each annotation it had before the file.
\<close>

theorem loader_fatal_errors:
  "(map_of (ls_data st) (rs_id rs) = Some s \<and>
      (sen_text s \<noteq> rs_text rs \<or> annotator \<in> fst ` set (annot s))
    \<longrightarrow> merge_sen set_iter annotator rs st = Raised AssertionError st) \<and>
   (load_file set_iter f st = Done st1 \<and> j < length (file_rows f) \<and>
      gen_row j (file_rows f ! j) = Inr (Some rs')
    \<longrightarrow> load_file set_iter f st1 = Raised AssertionError st1) \<and>
   (load_file set_iter f st = Raised e st' \<longrightarrow> keeps st st')"
proof (intro conjI impI)
  assume "map_of (ls_data st) (rs_id rs) = Some s \<and>
      (sen_text s \<noteq> rs_text rs \<or> annotator \<in> fst ` set (annot s))"
  then show "merge_sen set_iter annotator rs st = Raised AssertionError st"
    using merge_sen_fatal by blast
next
  assume "load_file set_iter f st = Done st1 \<and> j < length (file_rows f) \<and>
      gen_row j (file_rows f ! j) = Inr (Some rs')"
  then show "load_file set_iter f st1 = Raised AssertionError st1"
    using load_file_again by blast
next
  assume "load_file set_iter f st = Raised e st'"
  then show "keeps st st'"
    using load_file_keeps[of st set_iter f] by (simp add: outcome_state_def)
qed

theorem loader_fatal_errors_witness:
  "merge_sen remdups 1 plain_sen (plain_state [''gold'', ''ann1'']) =
     Raised AssertionError (plain_state [''gold'', ''ann1'']) \<and>
   load_file remdups (sheet ''ann1'' [plain_row]) (plain_state [''gold'', ''ann1'']) =
     Raised AssertionError (plain_state [''gold'', ''ann1'']) \<and>
   keeps (plain_state [''gold'']) (plain_state [''gold'', ''ann1''])"
proof -
  have h1: "map_of (ls_data (plain_state [''gold'', ''ann1''])) (rs_id plain_sen) =
              Some (mk_sen ''s1'' [(0, [0]), (1, [0])] [(0, 1)]) \<and>
            (sen_text (mk_sen ''s1'' [(0, [0]), (1, [0])] [(0, 1)]) \<noteq> rs_text plain_sen \<or>
             1 \<in> fst ` set (annot (mk_sen ''s1'' [(0, [0]), (1, [0])] [(0, 1)])))"
    by code_simp
  have h2: "load_file remdups (sheet ''ann1'' [plain_row]) (plain_state [''gold'']) =
              Done (plain_state [''gold'', ''ann1'']) \<and>
            Suc 0 < length (file_rows (sheet ''ann1'' [plain_row])) \<and>
            gen_row (Suc 0) (file_rows (sheet ''ann1'' [plain_row]) ! Suc 0) =
              Inr (Some plain_sen)"
    by code_simp
  have h3: "load_file remdups twice_file (plain_state [''gold'']) =
              Raised AssertionError (plain_state [''gold'', ''ann1''])"
    by (rule load_twice_file)
  show ?thesis
    using h1 h2 h3
      loader_fatal_errors[where st = "plain_state [''gold'', ''ann1'']" and rs = plain_sen
        and s = "mk_sen ''s1'' [(0, [0]), (1, [0])] [(0, 1)]" and annotator = 1
        and set_iter = remdups]
      loader_fatal_errors[where st = "plain_state [''gold'']" and set_iter = remdups
        and f = "sheet ''ann1'' [plain_row]" and ?st1.0 = "plain_state [''gold'', ''ann1'']"
        and j = "Suc 0" and rs' = plain_sen]
      loader_fatal_errors[where st = "plain_state [''gold'']" and set_iter = remdups
        and f = twice_file and e = AssertionError and st' = "plain_state [''gold'', ''ann1'']"]
    by blast
qed

text \<open>
  The claim as stated fails: the file of \<open>ann1\<close> with the same sentence in two
  rows is rejected at its second row, and by then its first row has added the
  annotation of \<open>ann1\<close> (id 1) to the record that the file of gold had created.
\<close>

theorem failing_file_has_modified_record:
  "load_data remdups [sheet ''gold'' [plain_row]] = Done (plain_state [''gold'']) \<and>
   load_file remdups twice_file (plain_state [''gold'']) =
     Raised AssertionError (plain_state [''gold'', ''ann1'']) \<and>
   map_option annot (map_of (ls_data (plain_state [''gold''])) ''s1'') = Some [(0, [0])] \<and>
   map_option annot (map_of (ls_data (plain_state [''gold'', ''ann1''])) ''s1'') =
     Some [(0, [0]), (1, [0])]"
proof -
  have "map_option annot (map_of (ls_data (plain_state [''gold''])) ''s1'') = Some [(0, [0])]"
    by code_simp
  moreover have "map_option annot (map_of (ls_data (plain_state [''gold'', ''ann1''])) ''s1'') =
      Some [(0, [0]), (1, [0])]"
    by code_simp
  ultimately show ?thesis
    using load_gold_plain load_twice_file by simp
qed

text \<open>
  C3.  In every row of the agreement report the two kappa lists have one entry per
  pair of annotators, in the order of the loops, and the entry of a pair is
  \<open>1.0\<close> (a number, not NaN, and not the value of \<open>cohen_kappa_score\<close>) whenever
  neither annotator of the pair selected the attribute in any sentence.
\<close>

theorem untouched_pairs_have_kappa_one:
  assumes "measure_agreement cohen d av anv = Inr stats" and "a \<in> set (id_to_word av)"
  shows "\<exists>x\<in>set stats.
           attr_name x = snd a \<and>
           length (attr_kappas x) = length (inter_pairs (id_to_word anv)) \<and>
           length (gold_kappas x) = length (gold_pairs (id_to_word anv)) \<and>
           (\<forall>i<length (inter_pairs (id_to_word anv)).
              untouched d (fst a) (inter_pairs (id_to_word anv) ! i)
              \<longrightarrow> attr_kappas x ! i = Float 1) \<and>
           (\<forall>i<length (gold_pairs (id_to_word anv)).
              untouched d (fst a) (gold_pairs (id_to_word anv) ! i)
              \<longrightarrow> gold_kappas x ! i = Float 1)"
proof -
  from assms(1) obtain rt ac xs where
    r: "rate_sens (map fst (id_to_word anv)) 0 d
          (zeros (len_vocab av) (len_vocab anv) (length d),
           map (\<lambda>(attr, w). (attr, [])) (id_to_word av)) = Inr (rt, ac)"
    and l: "attr_stats_loop cohen rt ac (id_to_word anv) (id_to_word av) = Inr xs"
    and s: "stats = sort_key (\<lambda>x. - int (attr_freq x)) xs"
    by (auto simp: measure_agreement_def Let_def split: sum.splits)
  from attr_stats_loop_mem[OF l assms(2)] obtain x where
    x: "x \<in> set xs" "attr_stat cohen rt ac (id_to_word anv) a = Inr x" by blast
  from attr_stat_kappas[OF x(2)] have
    n: "attr_name x = snd a" and
    i: "list_all2 (kappa_of cohen rt (fst a)) (attr_kappas x) (inter_pairs (id_to_word anv))" and
    g: "list_all2 (kappa_of cohen rt (fst a)) (gold_kappas x) (gold_pairs (id_to_word anv))"
    by auto
  have "x \<in> set stats" using x(1) s by simp
  moreover have "\<forall>i<length (inter_pairs (id_to_word anv)).
              untouched d (fst a) (inter_pairs (id_to_word anv) ! i)
              \<longrightarrow> attr_kappas x ! i = Float 1"
  proof (intro allI impI)
    fix j assume "j < length (inter_pairs (id_to_word anv))"
      and u: "untouched d (fst a) (inter_pairs (id_to_word anv) ! j)"
    then have "kappa_of cohen rt (fst a) (attr_kappas x ! j) (inter_pairs (id_to_word anv) ! j)"
      using i by (simp add: list_all2_conv_all_nth)
    from untouched_kappa[OF r u this] show "attr_kappas x ! j = Float 1" .
  qed
  moreover have "\<forall>i<length (gold_pairs (id_to_word anv)).
              untouched d (fst a) (gold_pairs (id_to_word anv) ! i)
              \<longrightarrow> gold_kappas x ! i = Float 1"
  proof (intro allI impI)
    fix j assume "j < length (gold_pairs (id_to_word anv))"
      and u: "untouched d (fst a) (gold_pairs (id_to_word anv) ! j)"
    then have "kappa_of cohen rt (fst a) (gold_kappas x ! j) (gold_pairs (id_to_word anv) ! j)"
      using g by (simp add: list_all2_conv_all_nth)
    from untouched_kappa[OF r u this] show "gold_kappas x ! j = Float 1" .
  qed
  ultimately show ?thesis
    using n list_all2_lengthD[OF i] list_all2_lengthD[OF g] by blast
qed

theorem untouched_pairs_have_kappa_one_witness:
  "\<exists>x\<in>set [\<lparr>attr_freq = 4, attr_name = ''DachneigungMax'', avg_gold = Float 0,
               gold_kappas = [Float 0, Float 0], avg = Float 0, attr_kappas = [Float 0],
               attr_counts_str = [(1, 2)]\<rparr>,
             \<lparr>attr_freq = 2, attr_name = ''GebaeudeHoeheMax'', avg_gold = Float (1 / 2),
               gold_kappas = [Float 1, Float 0], avg = Float 0, attr_kappas = [Float 0],
               attr_counts_str = [(1, 2)]\<rparr>].
     attr_name x = ''GebaeudeHoeheMax'' \<and> gold_kappas x ! 0 = Float 1"
proof -
  have h1: "measure_agreement (\<lambda>v1 v2. Float 0) gold_example gold_example_attrs
              gold_example_annotators =
            Inr [\<lparr>attr_freq = 4, attr_name = ''DachneigungMax'', avg_gold = Float 0,
                   gold_kappas = [Float 0, Float 0], avg = Float 0, attr_kappas = [Float 0],
                   attr_counts_str = [(1, 2)]\<rparr>,
                 \<lparr>attr_freq = 2, attr_name = ''GebaeudeHoeheMax'', avg_gold = Float (1 / 2),
                   gold_kappas = [Float 1, Float 0], avg = Float 0, attr_kappas = [Float 0],
                   attr_counts_str = [(1, 2)]\<rparr>]"
    by code_simp
  have h2: "(1, ''GebaeudeHoeheMax'') \<in> set (id_to_word gold_example_attrs)"
    by code_simp
  have u: "0 < length (gold_pairs (id_to_word gold_example_annotators)) \<and>
           untouched gold_example 1 (gold_pairs (id_to_word gold_example_annotators) ! 0)"
    by code_simp
  from untouched_pairs_have_kappa_one[OF h1 h2] u show ?thesis
    by auto
qed

text \<open>
  C2.  The counts are not always one per sentence and selected attribute.  In the
  run on the three files in which gold has the row with both \<open>BBDachneigungMax\<close>
  and \<open>DachneigungMax\<close>, gold's list for the one sentence is \<open>[0, 0]\<close>; the
  loop of line 62 reaches attribute 0 twice, and \<open>ann1\<close> (id 1), who selected
  it, ends with the \<open>TP\<close> count 2 for attribute 0, where the claim adds 1.
\<close>

theorem eval_against_gold_counts_alias_twice:
  assumes "set (set_iter [''BBDachneigungMax'', ''DachneigungMax'']) =
             {''BBDachneigungMax'', ''DachneigungMax''}"
    and "distinct (set_iter [''BBDachneigungMax'', ''DachneigungMax''])"
    and "set_iter [''DachneigungMax''] = [''DachneigungMax'']"
  shows "case reports (main cohen set_iter gold_alias_files) of
           Inl e \<Rightarrow> False
         | Inr (stats, d, gs) \<Rightarrow>
             map (\<lambda>(sid, s). (sid, annot s)) d =
               [(''s1'', [(0, [0, 0]), (1, [0]), (2, [0]), (3, [0]), (4, [0]), (5, [])])] \<and>
             stats_row gs 0 1 TP = 2 \<and>
             sum_list (map (\<lambda>(sid, s). expected 0 1 0 TP s) d) = 1"
proof -
  have x: "sum_list (map (\<lambda>(sid, s). expected 0 1 0 TP s)
             [(''s1'', (mk_sen ''s1'' [(0, [0, 0]), (1, [0]), (2, [0]), (3, [0]), (4, [0]), (5, [])]
                          [(0, 2)])\<lparr>full_agreement := Some False\<rparr>)]) = 1"
    by code_simp
  have y: "annot ((mk_sen ''s1'' [(0, [0, 0]), (1, [0]), (2, [0]), (3, [0]), (4, [0]), (5, [])]
                     [(0, 2)])\<lparr>full_agreement := Some False\<rparr>) =
           [(0, [0, 0]), (1, [0]), (2, [0]), (3, [0]), (4, [0]), (5, [])]"
    by (simp add: mk_sen_def)
  show ?thesis
    using measure_gold_alias[of cohen] eval_gold_alias x y
    by (simp add: main_def load_gold_alias[of set_iter, OF assms] IGNORE_EMPTY_def
        votes_gold_alias split: sum.splits prod.splits)
qed

theorem eval_against_gold_counts_alias_twice_witness:
  "case reports (main (\<lambda>v1 v2. Float 0) remdups gold_alias_files) of
     Inl e \<Rightarrow> False
   | Inr (stats, d, gs) \<Rightarrow>
       map (\<lambda>(sid, s). (sid, annot s)) d =
         [(''s1'', [(0, [0, 0]), (1, [0]), (2, [0]), (3, [0]), (4, [0]), (5, [])])] \<and>
       stats_row gs 0 1 TP = 2 \<and>
       sum_list (map (\<lambda>(sid, s). expected 0 1 0 TP s) d) = 1"
  using eval_against_gold_counts_alias_twice[of remdups "\<lambda>v1 v2. Float 0"] by simp

text \<open>
  C10.  On a vocabulary that does not hold \<open>min1\<close>, \<open>min2\<close>, \<open>min3\<close> yet,
  \<open>add_votes\<close> keeps the sentences and their order and changes a record only by
  appending three entries to \<open>annot\<close>, under the three new annotator ids: id,
  text, \<open>attr_stats\<close> and every annotation the record had stay as they were.  The
  three lists are the quorums of the votes counted over the annotators of the
  vocabulary as it was before the call and over the annotations as they were
  before the call, so the new annotators are never counted.
\<close>

theorem add_votes_frame:
  assumes wf: "wf_vocab anv"
    and fresh: "''min1'' \<notin> fst ` set (word_to_id anv)" "''min2'' \<notin> fst ` set (word_to_id anv)"
      "''min3'' \<notin> fst ` set (word_to_id anv)"
    and known: "known_annotators anv d"
    and ok: "add_votes d av anv = Inr (d', anv')"
  shows "length d' = length d \<and>
         (\<forall>i<length d.
            fst (d' ! i) = fst (d ! i) \<and>
            (\<exists>v1 v2 v3.
               snd (d' ! i) =
                 (snd (d ! i))\<lparr>annot := annot (snd (d ! i)) @
                    [(len_vocab anv, v1), (len_vocab anv + 1, v2), (len_vocab anv + 2, v3)]\<rparr> \<and>
               is_quorum anv (annot (snd (d ! i))) 1 v1 \<and>
               is_quorum anv (annot (snd (d ! i))) 2 v2 \<and>
               is_quorum anv (annot (snd (d ! i))) 3 v3)) \<and>
         word_to_id anv' = word_to_id anv @
           [(''min1'', len_vocab anv), (''min2'', len_vocab anv + 1), (''min3'', len_vocab anv + 2)]"
proof -
  let ?n = "len_vocab anv"
  have none: "map_of (word_to_id anv) ''min1'' = None" "map_of (word_to_id anv) ''min2'' = None"
    "map_of (word_to_id anv) ''min3'' = None"
    using fresh by (simp_all add: map_of_eq_None_iff)
  note reg = register_votes_fresh[OF none]
  have anv': "anv' = \<lparr>word_to_id = word_to_id anv @ [(''min1'', ?n), (''min2'', ?n + 1),
                                               (''min3'', ?n + 2)],
                 id_to_word = id_to_word anv @ [(?n, ''min1''), (?n + 1, ''min2''),
                                               (?n + 2, ''min3'')]\<rparr>"
    and vs: "vote_sens anv' (map fst (id_to_word anv)) [(1, ?n), (2, ?n + 1), (3, ?n + 2)] d = Inr d'"
    using ok unfolding add_votes_def Let_def reg by (auto split: sum.splits)
  have w: "\<forall>p\<in>set (id_to_word anv). get_word (fst p) anv' = Inr (snd p)"
    using wf_vocab_words[OF wf] by (simp add: get_word_def dict_get_def anv' map_add_def)
  from vote_sens_all2[OF vs] have a2:
    "list_all2 (\<lambda>p p'. fst p' = fst p \<and>
        vote_sen anv' (map fst (id_to_word anv)) [(1, ?n), (2, ?n + 1), (3, ?n + 2)] (snd p) =
          Inr (snd p')) d d'" .
  have len: "length d' = length d" using a2 by (simp add: list_all2_lengthD)
  have "fst (d' ! i) = fst (d ! i) \<and>
            (\<exists>v1 v2 v3.
               snd (d' ! i) =
                 (snd (d ! i))\<lparr>annot := annot (snd (d ! i)) @
                    [(?n, v1), (?n + 1, v2), (?n + 2, v3)]\<rparr> \<and>
               is_quorum anv (annot (snd (d ! i))) 1 v1 \<and>
               is_quorum anv (annot (snd (d ! i))) 2 v2 \<and>
               is_quorum anv (annot (snd (d ! i))) 3 v3)" if i: "i < length d" for i
  proof -
    have 1: "fst (d' ! i) = fst (d ! i)"
      and 2: "vote_sen anv' (map fst (id_to_word anv)) [(1, ?n), (2, ?n + 1), (3, ?n + 2)]
                (snd (d ! i)) = Inr (snd (d' ! i))"
      using a2 i by (auto simp: list_all2_conv_all_nth)
    have "d ! i \<in> set d" using i by simp
    then have k: "\<forall>k\<in>fst ` set (annot (snd (d ! i))). k < ?n"
      using known unfolding known_annotators_def list_all_iff by fastforce
    from vote_sen_result[OF w k 2] 1 show ?thesis by simp
  qed
  then show ?thesis using len anv' by simp
qed

theorem add_votes_frame_witness:
  "\<exists>d' anv'. add_votes gold_example gold_example_attrs gold_example_annotators = Inr (d', anv') \<and>
     d' = [(''s1'', mk_sen ''s1'' [(0, [0]), (1, [0]), (2, [1]), (3, [0, 1]), (4, []), (5, [])]
                      [(0, 1), (1, 1)]),
           (''s2'', mk_sen ''s2'' [(0, [0]), (1, [0]), (2, [1]), (3, [0, 1]), (4, []), (5, [])]
                      [(0, 1), (1, 1)])] \<and>
     length d' = length gold_example \<and> fst (d' ! 0) = fst (gold_example ! 0) \<and>
     (\<exists>v1 v2 v3.
        snd (d' ! 0) = (snd (gold_example ! 0))
          \<lparr>annot := annot (snd (gold_example ! 0)) @
             [(len_vocab gold_example_annotators, v1),
              (len_vocab gold_example_annotators + 1, v2),
              (len_vocab gold_example_annotators + 2, v3)]\<rparr> \<and>
        is_quorum gold_example_annotators (annot (snd (gold_example ! 0))) 1 v1 \<and>
        is_quorum gold_example_annotators (annot (snd (gold_example ! 0))) 2 v2 \<and>
        is_quorum gold_example_annotators (annot (snd (gold_example ! 0))) 3 v3)"
proof -
  have ok: "add_votes gold_example gold_example_attrs gold_example_annotators =
      Inr ([(''s1'', mk_sen ''s1'' [(0, [0]), (1, [0]), (2, [1]), (3, [0, 1]), (4, []), (5, [])]
                      [(0, 1), (1, 1)]),
            (''s2'', mk_sen ''s2'' [(0, [0]), (1, [0]), (2, [1]), (3, [0, 1]), (4, []), (5, [])]
                      [(0, 1), (1, 1)])],
           vocab_of [''gold'', ''ann1'', ''ann2'', ''min1'', ''min2'', ''min3''])"
    by code_simp
  have wf: "wf_vocab gold_example_annotators"
    by code_simp
  have fresh: "''min1'' \<notin> fst ` set (word_to_id gold_example_annotators)"
    "''min2'' \<notin> fst ` set (word_to_id gold_example_annotators)"
    "''min3'' \<notin> fst ` set (word_to_id gold_example_annotators)"
    by code_simp+
  have known: "known_annotators gold_example_annotators gold_example"
    by code_simp
  have c: "0 < length gold_example"
    by code_simp
  note t = add_votes_frame[OF wf fresh known ok]
  note t0 = t[THEN conjunct2, THEN conjunct1, rule_format, OF c]
  show ?thesis
    using ok t[THEN conjunct1] t0 by blast
qed


text \<open>
  Without the condition on the vocabulary the claim fails.  When one of the files
  comes from an annotator named \<open>min1\<close> (id 2, who selected attribute 1),
  \<open>add_votes\<close> finds the name in the vocabulary, counts the list of that
  annotator among the votes and then overwrites it: the entry \<open>[1]\<close> of id 2
  becomes \<open>[0, 1]\<close>, and only two entries are added.
\<close>

theorem add_votes_overwrites_min1:
  "load_data remdups min1_files = Done min1_state \<and>
   map_option annot (map_of (ls_data min1_state) ''s1'') =
     Some [(0, [0]), (1, [0]), (2, [1])] \<and>
   add_votes (ls_data min1_state) (ls_attr_vocab min1_state) (ls_annotator_vocab min1_state) =
     Inr ([(''s1'', mk_sen ''s1'' [(0, [0]), (1, [0]), (2, [0, 1]), (3, []), (4, [])]
                      [(0, 1), (1, 1)])],
          vocab_of [''gold'', ''ann1'', ''min1'', ''min2'', ''min3''])"
proof -
  have "load_data remdups min1_files = Done min1_state"
    by code_simp
  moreover have "map_option annot (map_of (ls_data min1_state) ''s1'') =
      Some [(0, [0]), (1, [0]), (2, [1])]"
    by code_simp
  moreover have
    "add_votes (ls_data min1_state) (ls_attr_vocab min1_state) (ls_annotator_vocab min1_state) =
     Inr ([(''s1'', mk_sen ''s1'' [(0, [0]), (1, [0]), (2, [0, 1]), (3, []), (4, [])]
                      [(0, 1), (1, 1)])],
          vocab_of [''gold'', ''ann1'', ''min1'', ''min2'', ''min3''])"
    by code_simp
  ultimately show ?thesis by simp
qed

end
